theory Spec2Isabelle
  imports Complex_Main "HOL-Library.Multiset" "HOL-Library.Word"
begin

unbundle bit_operations_syntax

section \<open>Cache reconciler (the notes query cache)\<close>

text \<open>
  The reconciler works on the generated message classes, whose 64-bit fields are
  JavaScript \<open>bigint\<close> values: unbounded integers, modelled as \<open>int\<close>.
  The field names carry a prefix because \<open>id\<close> is taken in HOL and because the wire
  codec below has records with the same field names.
\<close>

record PbNote =
  pb_id :: int
  pb_title :: string
  pb_body :: string
  createdAtUnixMs :: int
  updatedAtUnixMs :: int
  pb_version :: int

text \<open>An optional field (\<open>title?: string\<close>) is \<open>None\<close> when it is \<open>undefined\<close>.\<close>

record PbNoteDelta =
  delta_id :: int
  delta_title :: "string option"
  delta_body :: "string option"
  delta_updatedAtUnixMs :: int
  delta_version :: int

subsection \<open>\<open>Array.prototype.sort\<close> with a comparator\<close>

text \<open>
  \<open>[...items].sort(cmp)\<close> sorts a copy, stably, placing \<open>a\<close> before \<open>b\<close> when
  \<open>cmp(a, b) < 0\<close>. The model is a stable insertion sort driven by the comparator:
  an element is put in front of the first later element it does not compare greater than.
  For a comparator that is a consistent total order on the elements (the case whenever the
  ids are distinct) every conforming sort returns this list; for an inconsistent one the
  language leaves the order to the implementation.
\<close>

fun insertBy :: "('a \<Rightarrow> 'a \<Rightarrow> int) \<Rightarrow> 'a \<Rightarrow> 'a list \<Rightarrow> 'a list" where
  "insertBy cmp x [] = [x]"
| "insertBy cmp x (y # ys) = (if cmp x y > 0 then y # insertBy cmp x ys else x # y # ys)"

definition array_sort :: "('a \<Rightarrow> 'a \<Rightarrow> int) \<Rightarrow> 'a list \<Rightarrow> 'a list" where
  "array_sort cmp items = foldr (insertBy cmp) items []"

text \<open>The comparator of \<open>sortNotes\<close>, branch by branch.\<close>

definition compareNotes :: "PbNote \<Rightarrow> PbNote \<Rightarrow> int" where
  "compareNotes a b =
     (if updatedAtUnixMs a \<noteq> updatedAtUnixMs b
      then (if updatedAtUnixMs a < updatedAtUnixMs b then 1 else -1)
      else (if pb_id a < pb_id b then 1 else -1))"

definition sortNotes :: "PbNote list \<Rightarrow> PbNote list" where
  "sortNotes items = array_sort compareNotes items"

subsection \<open>The three cache operations\<close>

text \<open>\<open>findIndex\<close> returns the first index whose element satisfies the predicate, or \<open>-1\<close>.\<close>

fun findIndex :: "('a \<Rightarrow> bool) \<Rightarrow> 'a list \<Rightarrow> int" where
  "findIndex P [] = -1"
| "findIndex P (x # xs) =
     (if P x then 0 else (let i = findIndex P xs in if i = -1 then -1 else i + 1))"

definition upsertNote :: "PbNote list \<Rightarrow> PbNote \<Rightarrow> PbNote list" where
  "upsertNote notes note =
     (let index = findIndex (\<lambda>candidate. pb_id candidate = pb_id note) notes
      in if index = -1 then sortNotes (notes @ [note])
         else sortNotes (notes[nat index := note]))"

text \<open>\<open>delta.title ?? existing.title\<close>: the delta's value unless it is undefined.\<close>

definition applyDelta :: "PbNote list \<Rightarrow> PbNoteDelta \<Rightarrow> PbNote list" where
  "applyDelta notes delta =
     (case find (\<lambda>candidate. pb_id candidate = delta_id delta) notes of
        None \<Rightarrow> notes
      | Some existing \<Rightarrow>
          upsertNote notes
            (existing\<lparr>pb_title := (case delta_title delta of Some t \<Rightarrow> t | None \<Rightarrow> pb_title existing),
                      pb_body := (case delta_body delta of Some b \<Rightarrow> b | None \<Rightarrow> pb_body existing),
                      updatedAtUnixMs := delta_updatedAtUnixMs delta,
                      pb_version := delta_version delta\<rparr>))"

definition removeNote :: "PbNote list \<Rightarrow> int \<Rightarrow> PbNote list" where
  "removeNote notes noteId = filter (\<lambda>note. pb_id note \<noteq> noteId) notes"

text \<open>
  The ordering the specification asks for, in its own words: \<open>updatedAtUnixMs\<close> descending,
  ties broken by \<open>id\<close> descending. \<open>notesBefore a b\<close> says that \<open>a\<close> comes strictly first.
\<close>

definition notesBefore :: "PbNote \<Rightarrow> PbNote \<Rightarrow> bool" where
  "notesBefore a b \<longleftrightarrow>
     updatedAtUnixMs a > updatedAtUnixMs b
     \<or> (updatedAtUnixMs a = updatedAtUnixMs b \<and> pb_id a > pb_id b)"

text \<open>
  The notes page keeps its own copy of the operations over its \<open>notes\<close> state. Its
  \<open>sortNotes\<close> and \<open>upsertNote\<close> are the same code as above, assigning the result to
  \<open>notes\<close>; its \<open>applyDelta\<close> also returns the merged note, or null. The model returns
  the pair of the returned value and the new \<open>notes\<close>.
\<close>

definition applyDelta_page :: "PbNote list \<Rightarrow> PbNoteDelta \<Rightarrow> PbNote option \<times> PbNote list" where
  "applyDelta_page notes delta =
     (case find (\<lambda>candidate. pb_id candidate = delta_id delta) notes of
        None \<Rightarrow> (None, notes)
      | Some existing \<Rightarrow>
          (let updated =
                 existing\<lparr>pb_title := (case delta_title delta of Some t \<Rightarrow> t | None \<Rightarrow> pb_title existing),
                          pb_body := (case delta_body delta of Some b \<Rightarrow> b | None \<Rightarrow> pb_body existing),
                          updatedAtUnixMs := delta_updatedAtUnixMs delta,
                          pb_version := delta_version delta\<rparr>
           in (Some updated, upsertNote notes updated)))"

text \<open>Example notes: timestamps 5, 5, 3 and ids 10, 20, 30.\<close>

abbreviation ex_a :: PbNote where
  "ex_a \<equiv> \<lparr>pb_id = 10, pb_title = ''a'', pb_body = ''x'', createdAtUnixMs = 1,
            updatedAtUnixMs = 5, pb_version = 1\<rparr>"

abbreviation ex_b :: PbNote where
  "ex_b \<equiv> \<lparr>pb_id = 20, pb_title = ''b'', pb_body = ''y'', createdAtUnixMs = 2,
            updatedAtUnixMs = 5, pb_version = 1\<rparr>"

abbreviation ex_d :: PbNote where
  "ex_d \<equiv> \<lparr>pb_id = 30, pb_title = ''d'', pb_body = ''z'', createdAtUnixMs = 3,
            updatedAtUnixMs = 3, pb_version = 1\<rparr>"

section \<open>Wire codec (\<open>ui/src/lib/protobuf/notes.ts\<close>)\<close>

subsection \<open>Bytes, strings, numbers and errors\<close>

text \<open>
  A \<open>Uint8Array\<close> is a list of bytes. A JavaScript string is a sequence of UTF-16 code
  units. \<open>TextEncoder\<close> and \<open>TextDecoder\<close> belong to the platform, not to the
  repository: every function that uses them takes them as the parameters
  \<open>textEncoder\<close> and \<open>textDecoder\<close>.
\<close>


type_synonym byte = "8 word"
type_synonym jsstring = "16 word list"

text \<open>
  A JavaScript \<open>number\<close>: a finite value, or one of the three non-finite ones. The finite
  values are modelled by the rationals, which contain every finite double; the codec only
  asks whether a number is finite, negative or a safe integer.
\<close>

datatype number = Finite rat | NaN | PosInfinity | NegInfinity

text \<open>One constructor for each \<open>throw new Error(...)\<close> of the codec.\<close>

datatype error =
    UnexpectedEnd
  | VarintTooLarge
  | Int64ExceedsMaxSafe nat
  | LengthExceedsBounds
  | SkipBeyondBounds
  | UnsupportedWireType nat
  | NotFiniteNonNegative number
  | NotSafeInteger number

definition WIRE_VARINT :: nat where "WIRE_VARINT = 0"
definition WIRE_LENGTH_DELIMITED :: nat where "WIRE_LENGTH_DELIMITED = 2"
definition MAX_SAFE_INTEGER :: nat where "MAX_SAFE_INTEGER = 9007199254740991"

text \<open>\<open>Number.isFinite(value)\<close>, \<open>value < 0\<close>, \<open>Number.isSafeInteger(value)\<close> and \<open>BigInt(value)\<close>.\<close>

definition Number_isFinite :: "number \<Rightarrow> bool" where
  "Number_isFinite v = (case v of Finite q \<Rightarrow> True | _ \<Rightarrow> False)"

definition lessThanZero :: "number \<Rightarrow> bool" where
  "lessThanZero v = (case v of Finite q \<Rightarrow> q < 0 | NegInfinity \<Rightarrow> True | _ \<Rightarrow> False)"

definition Number_isSafeInteger :: "number \<Rightarrow> bool" where
  "Number_isSafeInteger v =
     (case v of Finite q \<Rightarrow> of_int \<lfloor>q\<rfloor> = q \<and> \<bar>q\<bar> \<le> of_nat MAX_SAFE_INTEGER | _ \<Rightarrow> False)"

definition BigInt :: "number \<Rightarrow> int" where
  "BigInt v = (case v of Finite q \<Rightarrow> \<lfloor>q\<rfloor> | _ \<Rightarrow> 0)"

text \<open>
  \<open>Number(value)\<close> on a non-negative \<open>bigint\<close>: the nearest double, ties to even. Below
  \<open>2^53\<close> the conversion is exact; above, the result is a multiple of the spacing of the
  doubles at that magnitude (\<open>roundingUnit\<close>). The result is always an integer, kept as
  a \<open>nat\<close>.
\<close>

function roundingUnit :: "nat \<Rightarrow> nat" where
  "roundingUnit v = (if v < 2 ^ 53 then 1 else 2 * roundingUnit (v div 2))"
  by pat_completeness auto
termination
  by (relation "measure (\<lambda>v. v)") auto

declare roundingUnit.simps [simp del]

definition Number_of_bigint :: "nat \<Rightarrow> nat" where
  "Number_of_bigint v =
     (let u = roundingUnit v; q = v div u; r = v mod u
      in (if 2 * r > u \<or> (2 * r = u \<and> odd q) then q + 1 else q) * u)"

text \<open>
  \<open>numberToVarint\<close> returns a \<open>bigint\<close>; on the branch that returns, the value is a
  non-negative integer, so the model returns a \<open>nat\<close>.
\<close>

definition numberToVarint :: "number \<Rightarrow> error + nat" where
  "numberToVarint v =
     (if \<not> Number_isFinite v \<or> lessThanZero v then Inl (NotFiniteNonNegative v)
      else if \<not> Number_isSafeInteger v then Inl (NotSafeInteger v)
      else Inr (nat (BigInt v)))"

subsection \<open>\<open>class Writer\<close>\<close>

text \<open>
  The writer appends to its \<open>bytes\<close>; each method returns the updated writer. Every
  caller passes \<open>writeVarint\<close> a non-negative \<open>bigint\<close> (a tag, a length or the result of
  \<open>numberToVarint\<close>), so its argument is a \<open>nat\<close>. \<open>writeInt64\<close> is the one method
  that can throw.
\<close>

record Writer =
  bytes :: "byte list"

function writeVarint :: "nat \<Rightarrow> Writer \<Rightarrow> Writer" where
  "writeVarint current w =
     (if current \<ge> 0x80
      then writeVarint (drop_bit 7 current)
             (w\<lparr>bytes := bytes w @ [of_nat ((current AND 0x7f) OR 0x80)]\<rparr>)
      else w\<lparr>bytes := bytes w @ [of_nat current]\<rparr>)"
  by pat_completeness auto
termination
  by (relation "measure (\<lambda>(current, w). current)") (auto simp: drop_bit_eq_div)

declare writeVarint.simps [simp del]

definition writeTag :: "nat \<Rightarrow> nat \<Rightarrow> Writer \<Rightarrow> Writer" where
  "writeTag fieldNumber wireType w = writeVarint (push_bit 3 fieldNumber OR wireType) w"

definition writeInt64 :: "nat \<Rightarrow> number \<Rightarrow> Writer \<Rightarrow> error + Writer" where
  "writeInt64 fieldNumber v w =
     (let w1 = writeTag fieldNumber WIRE_VARINT w
      in case numberToVarint v of Inl e \<Rightarrow> Inl e | Inr n \<Rightarrow> Inr (writeVarint n w1))"

definition writeString :: "(jsstring \<Rightarrow> byte list) \<Rightarrow> nat \<Rightarrow> jsstring \<Rightarrow> Writer \<Rightarrow> Writer" where
  "writeString textEncoder fieldNumber v w =
     (let w1 = writeTag fieldNumber WIRE_LENGTH_DELIMITED w;
          encoded = textEncoder v;
          w2 = writeVarint (length encoded) w1
      in w2\<lparr>bytes := bytes w2 @ encoded\<rparr>)"

definition writeMessage :: "nat \<Rightarrow> byte list \<Rightarrow> Writer \<Rightarrow> Writer" where
  "writeMessage fieldNumber payload w =
     (let w1 = writeTag fieldNumber WIRE_LENGTH_DELIMITED w;
          w2 = writeVarint (length payload) w1
      in w2\<lparr>bytes := bytes w2 @ payload\<rparr>)"

definition newWriter :: Writer where
  "newWriter = \<lparr>bytes = []\<rparr>"

definition finish :: "Writer \<Rightarrow> byte list" where
  "finish w = bytes w"

subsection \<open>\<open>class Reader\<close>\<close>

text \<open>
  The reader is its \<open>payload\<close> and its \<open>offset\<close>; a method returns its value together
  with the advanced reader, or the error it throws. \<open>readVarint_loop\<close> is the
  \<open>while (true)\<close> loop of \<open>readVarint\<close> with its local variables \<open>shift\<close> and
  \<open>value\<close>. In \<open>readTag\<close>, \<open>raw >>> 3\<close> and \<open>raw & 0b111\<close> act on the low 32 bits
  of \<open>raw\<close>. In \<open>readBytes\<close> and \<open>skipField\<close> the sum \<open>this.offset + length\<close> is
  taken exactly: a typed array is shorter than \<open>2^53\<close> bytes, so the comparison with
  \<open>payload.length\<close> has the same outcome as on doubles.
\<close>

record Reader =
  payload :: "byte list"
  offset :: nat

record Tag =
  fieldNumber :: nat
  wireType :: nat

definition newReader :: "byte list \<Rightarrow> Reader" where
  "newReader bs = \<lparr>payload = bs, offset = 0\<rparr>"

definition eof :: "Reader \<Rightarrow> bool" where
  "eof r \<longleftrightarrow> offset r \<ge> length (payload r)"

function readVarint_loop :: "Reader \<Rightarrow> nat \<Rightarrow> nat \<Rightarrow> error + nat \<times> Reader" where
  "readVarint_loop r shift val =
     (if offset r \<ge> length (payload r) then Inl UnexpectedEnd
      else let byte = payload r ! offset r;
               r' = r\<lparr>offset := offset r + 1\<rparr>;
               val' = val OR push_bit shift (unat (byte AND 0x7f))
           in if byte AND 0x80 = 0 then Inr (val', r')
              else if shift + 7 > 63 then Inl VarintTooLarge
              else readVarint_loop r' (shift + 7) val')"
  by pat_completeness auto
termination
  by (relation "measure (\<lambda>(r, shift, val). length (payload r) - offset r)") auto

declare readVarint_loop.simps [simp del]

definition readVarint :: "Reader \<Rightarrow> error + nat \<times> Reader" where
  "readVarint r = readVarint_loop r 0 0"

definition readTag :: "Reader \<Rightarrow> error + Tag \<times> Reader" where
  "readTag r =
     (case readVarint r of
        Inl e \<Rightarrow> Inl e
      | Inr (v, r') \<Rightarrow>
          (let raw = Number_of_bigint v
           in Inr (\<lparr>fieldNumber = (raw mod 2 ^ 32) div 2 ^ 3, wireType = raw mod 8\<rparr>, r')))"

definition readInt64 :: "Reader \<Rightarrow> error + number \<times> Reader" where
  "readInt64 r =
     (case readVarint r of
        Inl e \<Rightarrow> Inl e
      | Inr (v, r') \<Rightarrow>
          if v > MAX_SAFE_INTEGER then Inl (Int64ExceedsMaxSafe v)
          else Inr (Finite (of_nat (Number_of_bigint v)), r'))"

definition readBytes :: "Reader \<Rightarrow> error + byte list \<times> Reader" where
  "readBytes r =
     (case readVarint r of
        Inl e \<Rightarrow> Inl e
      | Inr (v, r') \<Rightarrow>
          (let len = Number_of_bigint v; end = offset r' + len
           in if end > length (payload r') then Inl LengthExceedsBounds
              else Inr (take (end - offset r') (drop (offset r') (payload r')), r'\<lparr>offset := end\<rparr>)))"

definition readString :: "(byte list \<Rightarrow> jsstring) \<Rightarrow> Reader \<Rightarrow> error + jsstring \<times> Reader" where
  "readString textDecoder r =
     (case readBytes r of Inl e \<Rightarrow> Inl e | Inr (bs, r') \<Rightarrow> Inr (textDecoder bs, r'))"

definition skipField :: "nat \<Rightarrow> Reader \<Rightarrow> error + Reader" where
  "skipField wt r =
     (if wt = WIRE_VARINT then
        (case readVarint r of Inl e \<Rightarrow> Inl e | Inr (v, r') \<Rightarrow> Inr r')
      else if wt = WIRE_LENGTH_DELIMITED then
        (case readVarint r of
           Inl e \<Rightarrow> Inl e
         | Inr (v, r') \<Rightarrow>
             (let len = Number_of_bigint v; end = offset r' + len
              in if end > length (payload r') then Inl SkipBeyondBounds
                 else Inr (r'\<lparr>offset := end\<rparr>)))
      else Inl (UnsupportedWireType wt))"





subsection \<open>A successful read advances the reader\<close>

text \<open>These facts are what makes the decoding loops below terminate.\<close>

lemma readVarint_loop_progress:
  "readVarint_loop r shift val = Inr (v, r')
   \<Longrightarrow> payload r' = payload r \<and> offset r < offset r' \<and> offset r' \<le> length (payload r)"
proof (induction r shift val rule: readVarint_loop.induct)
  case (1 r shift val)
  from "1.prems" have inb: "\<not> length (payload r) \<le> offset r"
    by (subst (asm) readVarint_loop.simps) (simp split: if_splits)
  show ?case
  proof (cases "payload r ! offset r AND 0x80 = 0")
    case True
    with "1.prems" inb have "r' = r\<lparr>offset := offset r + 1\<rparr>"
      by (subst (asm) readVarint_loop.simps) (simp add: Let_def)
    with inb show ?thesis by simp
  next
    case False
    with "1.prems" inb have sh: "\<not> 63 < shift + 7"
      by (subst (asm) readVarint_loop.simps) (simp add: Let_def split: if_splits)
    with "1.prems" inb False
    have rec: "readVarint_loop (r\<lparr>offset := offset r + 1\<rparr>) (shift + 7)
                  (val OR push_bit shift (unat (payload r ! offset r AND 0x7f))) = Inr (v, r')"
      by (subst (asm) readVarint_loop.simps) (simp add: Let_def)
    from "1.IH" [OF inb refl refl refl False sh rec] show ?thesis by simp
  qed
qed


lemma readVarint_progress:
  "readVarint r = Inr (v, r')
   \<Longrightarrow> payload r' = payload r \<and> offset r < offset r' \<and> offset r' \<le> length (payload r)"
  unfolding readVarint_def by (rule readVarint_loop_progress)

lemma readTag_progress:
  assumes "readTag r = Inr (t, r')"
  shows "payload r' = payload r \<and> offset r < offset r' \<and> offset r' \<le> length (payload r)"
proof -
  from assms obtain v where "readVarint r = Inr (v, r')"
    by (auto simp: readTag_def Let_def split: sum.splits)
  then show ?thesis by (rule readVarint_progress)
qed

lemma readInt64_progress:
  assumes "readInt64 r = Inr (n, r')"
  shows "payload r' = payload r \<and> offset r < offset r' \<and> offset r' \<le> length (payload r)"
proof -
  from assms obtain v where "readVarint r = Inr (v, r')"
    by (auto simp: readInt64_def split: sum.splits if_splits)
  then show ?thesis by (rule readVarint_progress)
qed

lemma readBytes_progress:
  assumes "readBytes r = Inr (bs, r')"
  shows "payload r' = payload r \<and> offset r < offset r' \<and> offset r' \<le> length (payload r)"
proof -
  from assms obtain v r1 where rv: "readVarint r = Inr (v, r1)"
    and r': "r' = r1\<lparr>offset := offset r1 + Number_of_bigint v\<rparr>"
    and le: "offset r1 + Number_of_bigint v \<le> length (payload r1)"
    by (auto simp: readBytes_def Let_def split: sum.splits if_splits)
  from readVarint_progress [OF rv] r' le show ?thesis by simp
qed

lemma readString_progress:
  assumes "readString textDecoder r = Inr (s, r')"
  shows "payload r' = payload r \<and> offset r < offset r' \<and> offset r' \<le> length (payload r)"
proof -
  from assms obtain bs where "readBytes r = Inr (bs, r')"
    by (auto simp: readString_def split: sum.splits)
  then show ?thesis by (rule readBytes_progress)
qed

lemma skipField_progress:
  assumes "skipField wt r = Inr r'"
  shows "payload r' = payload r \<and> offset r < offset r' \<and> offset r' \<le> length (payload r)"
proof -
  from assms obtain v r1 where rv: "readVarint r = Inr (v, r1)"
    and r': "r' = r1 \<or> r' = r1\<lparr>offset := offset r1 + Number_of_bigint v\<rparr>
                          \<and> offset r1 + Number_of_bigint v \<le> length (payload r1)"
    by (auto simp: skipField_def Let_def split: sum.splits if_splits)
  from readVarint_progress [OF rv] r' show ?thesis by auto
qed

subsection \<open>Messages, encoders and decoders\<close>

text \<open>
  Each \<open>decodeX\<close> of the source is a \<open>while (!reader.eof())\<close> loop around a
  \<open>switch (fieldNumber)\<close>. In the model the body of the switch is \<open>decodeX_field\<close> (one
  branch per \<open>case\<close>, in the source's order, the \<open>default\<close> branch last) and the loop is
  \<open>decodeX_loop\<close>; \<open>decodeX\<close> starts the loop on a fresh reader with the message the
  source initialises. An optional field (\<open>title?: string\<close>) is an \<open>option\<close>.
\<close>

definition advances :: "Reader \<Rightarrow> Reader \<Rightarrow> bool" where
  "advances r r' \<longleftrightarrow>
     payload r' = payload r \<and> offset r < offset r' \<and> offset r' \<le> length (payload r)"

lemma loop_measure:
  "readTag r = Inr (t, r1) \<Longrightarrow> advances r1 r2
   \<Longrightarrow> length (payload r2) - offset r2 < length (payload r) - offset r"
  using readTag_progress [of r t r1] by (auto simp add: advances_def)

record Note =
  note_id :: number
  note_title :: jsstring
  note_body :: jsstring
  note_created_at_unix_ms :: number
  note_updated_at_unix_ms :: number
  note_version :: number

record CreateNoteRequest =
  cnreq_title :: jsstring
  cnreq_body :: jsstring

record CreateNoteResponse =
  cnres_note :: "Note option"

record GetNoteResponse =
  gnres_note :: "Note option"

record ListNotesResponse =
  lnres_notes :: "Note list"

record UpdateNoteRequest =
  unreq_title :: "jsstring option"
  unreq_body :: "jsstring option"

record UpdateNoteResponse =
  unres_note :: "Note option"

record DeleteNoteResponse =
  dnres_id :: number

record NoteDelta =
  nd_id :: number
  nd_title :: "jsstring option"
  nd_body :: "jsstring option"
  nd_updated_at_unix_ms :: number
  nd_version :: number

record NoteDeleted =
  deleted_id :: number

text \<open>\<open>NoteEvent\<close>: one of the three tagged members, or \<open>{event: undefined}\<close>.\<close>

datatype NoteEvent =
    EventCreated Note
  | EventUpdated NoteDelta
  | EventDeleted NoteDeleted
  | EventUndefined

definition encodeNote :: "(jsstring \<Rightarrow> byte list) \<Rightarrow> Note \<Rightarrow> error + byte list" where
  "encodeNote textEncoder message =
     (case writeInt64 1 (note_id message) newWriter of
        Inl e \<Rightarrow> Inl e
      | Inr w1 \<Rightarrow>
          (let w2 = writeString textEncoder 2 (note_title message) w1;
               w3 = writeString textEncoder 3 (note_body message) w2
           in case writeInt64 4 (note_created_at_unix_ms message) w3 of
                Inl e \<Rightarrow> Inl e
              | Inr w4 \<Rightarrow>
                  (case writeInt64 5 (note_updated_at_unix_ms message) w4 of
                     Inl e \<Rightarrow> Inl e
                   | Inr w5 \<Rightarrow>
                       (case writeInt64 6 (note_version message) w5 of
                          Inl e \<Rightarrow> Inl e
                        | Inr w6 \<Rightarrow> Inr (finish w6)))))"

definition decodeNote_field ::
  "(byte list \<Rightarrow> jsstring) \<Rightarrow> Tag \<Rightarrow> Reader \<Rightarrow> Note \<Rightarrow> error + Reader \<times> Note" where
  "decodeNote_field textDecoder tag reader message =
     (if fieldNumber tag = 1 then
        (case readInt64 reader of Inl e \<Rightarrow> Inl e
         | Inr (v, r) \<Rightarrow> Inr (r, message\<lparr>note_id := v\<rparr>))
      else if fieldNumber tag = 2 then
        (case readString textDecoder reader of Inl e \<Rightarrow> Inl e
         | Inr (v, r) \<Rightarrow> Inr (r, message\<lparr>note_title := v\<rparr>))
      else if fieldNumber tag = 3 then
        (case readString textDecoder reader of Inl e \<Rightarrow> Inl e
         | Inr (v, r) \<Rightarrow> Inr (r, message\<lparr>note_body := v\<rparr>))
      else if fieldNumber tag = 4 then
        (case readInt64 reader of Inl e \<Rightarrow> Inl e
         | Inr (v, r) \<Rightarrow> Inr (r, message\<lparr>note_created_at_unix_ms := v\<rparr>))
      else if fieldNumber tag = 5 then
        (case readInt64 reader of Inl e \<Rightarrow> Inl e
         | Inr (v, r) \<Rightarrow> Inr (r, message\<lparr>note_updated_at_unix_ms := v\<rparr>))
      else if fieldNumber tag = 6 then
        (case readInt64 reader of Inl e \<Rightarrow> Inl e
         | Inr (v, r) \<Rightarrow> Inr (r, message\<lparr>note_version := v\<rparr>))
      else
        (case skipField (wireType tag) reader of Inl e \<Rightarrow> Inl e
         | Inr r \<Rightarrow> Inr (r, message)))"

lemma decodeNote_field_advances:
  "decodeNote_field textDecoder tag reader message = Inr (r', message') \<Longrightarrow> advances reader r'"
  unfolding decodeNote_field_def advances_def
  by (auto split: if_splits sum.splits
      dest: readInt64_progress readString_progress readBytes_progress skipField_progress)

function decodeNote_loop :: "(byte list \<Rightarrow> jsstring) \<Rightarrow> Reader \<Rightarrow> Note \<Rightarrow> error + Note" where
  "decodeNote_loop textDecoder reader message =
     (if eof reader then Inr message
      else case readTag reader of
             Inl e \<Rightarrow> Inl e
           | Inr (tag, r1) \<Rightarrow>
               (case decodeNote_field textDecoder tag r1 message of
                  Inl e \<Rightarrow> Inl e
                | Inr (r2, message') \<Rightarrow> decodeNote_loop textDecoder r2 message'))"
  by pat_completeness auto
termination
  by (relation "measure (\<lambda>(textDecoder, r, m). length (payload r) - offset r)")
     (auto dest: decodeNote_field_advances simp: loop_measure)

declare decodeNote_loop.simps [simp del]

definition decodeNote :: "(byte list \<Rightarrow> jsstring) \<Rightarrow> byte list \<Rightarrow> error + Note" where
  "decodeNote textDecoder bs =
     decodeNote_loop textDecoder (newReader bs)
       \<lparr>note_id = Finite 0, note_title = [], note_body = [],
        note_created_at_unix_ms = Finite 0, note_updated_at_unix_ms = Finite 0,
        note_version = Finite 0\<rparr>"

definition encodeCreateNoteRequest ::
  "(jsstring \<Rightarrow> byte list) \<Rightarrow> CreateNoteRequest \<Rightarrow> error + byte list" where
  "encodeCreateNoteRequest textEncoder message =
     (let w1 = writeString textEncoder 1 (cnreq_title message) newWriter;
          w2 = writeString textEncoder 2 (cnreq_body message) w1
      in Inr (finish w2))"

definition decodeCreateNoteRequest_field ::
  "(byte list \<Rightarrow> jsstring) \<Rightarrow> Tag \<Rightarrow> Reader \<Rightarrow> CreateNoteRequest
   \<Rightarrow> error + Reader \<times> CreateNoteRequest" where
  "decodeCreateNoteRequest_field textDecoder tag reader message =
     (if fieldNumber tag = 1 then
        (case readString textDecoder reader of Inl e \<Rightarrow> Inl e
         | Inr (v, r) \<Rightarrow> Inr (r, message\<lparr>cnreq_title := v\<rparr>))
      else if fieldNumber tag = 2 then
        (case readString textDecoder reader of Inl e \<Rightarrow> Inl e
         | Inr (v, r) \<Rightarrow> Inr (r, message\<lparr>cnreq_body := v\<rparr>))
      else
        (case skipField (wireType tag) reader of Inl e \<Rightarrow> Inl e
         | Inr r \<Rightarrow> Inr (r, message)))"

lemma decodeCreateNoteRequest_field_advances:
  "decodeCreateNoteRequest_field textDecoder tag reader message = Inr (r', message') \<Longrightarrow> advances reader r'"
  unfolding decodeCreateNoteRequest_field_def advances_def
  by (auto split: if_splits sum.splits
      dest: readInt64_progress readString_progress readBytes_progress skipField_progress)

function decodeCreateNoteRequest_loop :: "(byte list \<Rightarrow> jsstring) \<Rightarrow> Reader \<Rightarrow> CreateNoteRequest \<Rightarrow> error + CreateNoteRequest" where
  "decodeCreateNoteRequest_loop textDecoder reader message =
     (if eof reader then Inr message
      else case readTag reader of
             Inl e \<Rightarrow> Inl e
           | Inr (tag, r1) \<Rightarrow>
               (case decodeCreateNoteRequest_field textDecoder tag r1 message of
                  Inl e \<Rightarrow> Inl e
                | Inr (r2, message') \<Rightarrow> decodeCreateNoteRequest_loop textDecoder r2 message'))"
  by pat_completeness auto
termination
  by (relation "measure (\<lambda>(textDecoder, r, m). length (payload r) - offset r)")
     (auto dest: decodeCreateNoteRequest_field_advances simp: loop_measure)

declare decodeCreateNoteRequest_loop.simps [simp del]

definition decodeCreateNoteRequest ::
  "(byte list \<Rightarrow> jsstring) \<Rightarrow> byte list \<Rightarrow> error + CreateNoteRequest" where
  "decodeCreateNoteRequest textDecoder bs =
     decodeCreateNoteRequest_loop textDecoder (newReader bs) \<lparr>cnreq_title = [], cnreq_body = []\<rparr>"

definition encodeCreateNoteResponse ::
  "(jsstring \<Rightarrow> byte list) \<Rightarrow> CreateNoteResponse \<Rightarrow> error + byte list" where
  "encodeCreateNoteResponse textEncoder message =
     (case cnres_note message of
        None \<Rightarrow> Inr (finish newWriter)
      | Some note \<Rightarrow>
          (case encodeNote textEncoder note of
             Inl e \<Rightarrow> Inl e
           | Inr bs \<Rightarrow> Inr (finish (writeMessage 1 bs newWriter))))"

definition decodeCreateNoteResponse_field ::
  "(byte list \<Rightarrow> jsstring) \<Rightarrow> Tag \<Rightarrow> Reader \<Rightarrow> CreateNoteResponse
   \<Rightarrow> error + Reader \<times> CreateNoteResponse" where
  "decodeCreateNoteResponse_field textDecoder tag reader message =
     (if fieldNumber tag = 1 then
        (case readBytes reader of Inl e \<Rightarrow> Inl e
         | Inr (bs, r) \<Rightarrow>
             (case decodeNote textDecoder bs of Inl e \<Rightarrow> Inl e
              | Inr note \<Rightarrow> Inr (r, message\<lparr>cnres_note := Some note\<rparr>)))
      else
        (case skipField (wireType tag) reader of Inl e \<Rightarrow> Inl e
         | Inr r \<Rightarrow> Inr (r, message)))"

lemma decodeCreateNoteResponse_field_advances:
  "decodeCreateNoteResponse_field textDecoder tag reader message = Inr (r', message') \<Longrightarrow> advances reader r'"
  unfolding decodeCreateNoteResponse_field_def advances_def
  by (auto split: if_splits sum.splits
      dest: readInt64_progress readString_progress readBytes_progress skipField_progress)

function decodeCreateNoteResponse_loop :: "(byte list \<Rightarrow> jsstring) \<Rightarrow> Reader \<Rightarrow> CreateNoteResponse \<Rightarrow> error + CreateNoteResponse" where
  "decodeCreateNoteResponse_loop textDecoder reader message =
     (if eof reader then Inr message
      else case readTag reader of
             Inl e \<Rightarrow> Inl e
           | Inr (tag, r1) \<Rightarrow>
               (case decodeCreateNoteResponse_field textDecoder tag r1 message of
                  Inl e \<Rightarrow> Inl e
                | Inr (r2, message') \<Rightarrow> decodeCreateNoteResponse_loop textDecoder r2 message'))"
  by pat_completeness auto
termination
  by (relation "measure (\<lambda>(textDecoder, r, m). length (payload r) - offset r)")
     (auto dest: decodeCreateNoteResponse_field_advances simp: loop_measure)

declare decodeCreateNoteResponse_loop.simps [simp del]

definition decodeCreateNoteResponse ::
  "(byte list \<Rightarrow> jsstring) \<Rightarrow> byte list \<Rightarrow> error + CreateNoteResponse" where
  "decodeCreateNoteResponse textDecoder bs =
     decodeCreateNoteResponse_loop textDecoder (newReader bs) \<lparr>cnres_note = None\<rparr>"

definition encodeGetNoteResponse ::
  "(jsstring \<Rightarrow> byte list) \<Rightarrow> GetNoteResponse \<Rightarrow> error + byte list" where
  "encodeGetNoteResponse textEncoder message =
     (case gnres_note message of
        None \<Rightarrow> Inr (finish newWriter)
      | Some note \<Rightarrow>
          (case encodeNote textEncoder note of
             Inl e \<Rightarrow> Inl e
           | Inr bs \<Rightarrow> Inr (finish (writeMessage 1 bs newWriter))))"

definition decodeGetNoteResponse_field ::
  "(byte list \<Rightarrow> jsstring) \<Rightarrow> Tag \<Rightarrow> Reader \<Rightarrow> GetNoteResponse
   \<Rightarrow> error + Reader \<times> GetNoteResponse" where
  "decodeGetNoteResponse_field textDecoder tag reader message =
     (if fieldNumber tag = 1 then
        (case readBytes reader of Inl e \<Rightarrow> Inl e
         | Inr (bs, r) \<Rightarrow>
             (case decodeNote textDecoder bs of Inl e \<Rightarrow> Inl e
              | Inr note \<Rightarrow> Inr (r, message\<lparr>gnres_note := Some note\<rparr>)))
      else
        (case skipField (wireType tag) reader of Inl e \<Rightarrow> Inl e
         | Inr r \<Rightarrow> Inr (r, message)))"

lemma decodeGetNoteResponse_field_advances:
  "decodeGetNoteResponse_field textDecoder tag reader message = Inr (r', message') \<Longrightarrow> advances reader r'"
  unfolding decodeGetNoteResponse_field_def advances_def
  by (auto split: if_splits sum.splits
      dest: readInt64_progress readString_progress readBytes_progress skipField_progress)

function decodeGetNoteResponse_loop :: "(byte list \<Rightarrow> jsstring) \<Rightarrow> Reader \<Rightarrow> GetNoteResponse \<Rightarrow> error + GetNoteResponse" where
  "decodeGetNoteResponse_loop textDecoder reader message =
     (if eof reader then Inr message
      else case readTag reader of
             Inl e \<Rightarrow> Inl e
           | Inr (tag, r1) \<Rightarrow>
               (case decodeGetNoteResponse_field textDecoder tag r1 message of
                  Inl e \<Rightarrow> Inl e
                | Inr (r2, message') \<Rightarrow> decodeGetNoteResponse_loop textDecoder r2 message'))"
  by pat_completeness auto
termination
  by (relation "measure (\<lambda>(textDecoder, r, m). length (payload r) - offset r)")
     (auto dest: decodeGetNoteResponse_field_advances simp: loop_measure)

declare decodeGetNoteResponse_loop.simps [simp del]

definition decodeGetNoteResponse ::
  "(byte list \<Rightarrow> jsstring) \<Rightarrow> byte list \<Rightarrow> error + GetNoteResponse" where
  "decodeGetNoteResponse textDecoder bs =
     decodeGetNoteResponse_loop textDecoder (newReader bs) \<lparr>gnres_note = None\<rparr>"

fun encodeListNotesResponse_loop ::
  "(jsstring \<Rightarrow> byte list) \<Rightarrow> Note list \<Rightarrow> Writer \<Rightarrow> error + Writer" where
  "encodeListNotesResponse_loop textEncoder [] w = Inr w"
| "encodeListNotesResponse_loop textEncoder (note # notes) w =
     (case encodeNote textEncoder note of
        Inl e \<Rightarrow> Inl e
      | Inr bs \<Rightarrow> encodeListNotesResponse_loop textEncoder notes (writeMessage 1 bs w))"

definition encodeListNotesResponse ::
  "(jsstring \<Rightarrow> byte list) \<Rightarrow> ListNotesResponse \<Rightarrow> error + byte list" where
  "encodeListNotesResponse textEncoder message =
     (case encodeListNotesResponse_loop textEncoder (lnres_notes message) newWriter of
        Inl e \<Rightarrow> Inl e
      | Inr w \<Rightarrow> Inr (finish w))"

definition decodeListNotesResponse_field ::
  "(byte list \<Rightarrow> jsstring) \<Rightarrow> Tag \<Rightarrow> Reader \<Rightarrow> ListNotesResponse
   \<Rightarrow> error + Reader \<times> ListNotesResponse" where
  "decodeListNotesResponse_field textDecoder tag reader message =
     (if fieldNumber tag = 1 then
        (case readBytes reader of Inl e \<Rightarrow> Inl e
         | Inr (bs, r) \<Rightarrow>
             (case decodeNote textDecoder bs of Inl e \<Rightarrow> Inl e
              | Inr note \<Rightarrow> Inr (r, message\<lparr>lnres_notes := lnres_notes message @ [note]\<rparr>)))
      else
        (case skipField (wireType tag) reader of Inl e \<Rightarrow> Inl e
         | Inr r \<Rightarrow> Inr (r, message)))"

lemma decodeListNotesResponse_field_advances:
  "decodeListNotesResponse_field textDecoder tag reader message = Inr (r', message') \<Longrightarrow> advances reader r'"
  unfolding decodeListNotesResponse_field_def advances_def
  by (auto split: if_splits sum.splits
      dest: readInt64_progress readString_progress readBytes_progress skipField_progress)

function decodeListNotesResponse_loop :: "(byte list \<Rightarrow> jsstring) \<Rightarrow> Reader \<Rightarrow> ListNotesResponse \<Rightarrow> error + ListNotesResponse" where
  "decodeListNotesResponse_loop textDecoder reader message =
     (if eof reader then Inr message
      else case readTag reader of
             Inl e \<Rightarrow> Inl e
           | Inr (tag, r1) \<Rightarrow>
               (case decodeListNotesResponse_field textDecoder tag r1 message of
                  Inl e \<Rightarrow> Inl e
                | Inr (r2, message') \<Rightarrow> decodeListNotesResponse_loop textDecoder r2 message'))"
  by pat_completeness auto
termination
  by (relation "measure (\<lambda>(textDecoder, r, m). length (payload r) - offset r)")
     (auto dest: decodeListNotesResponse_field_advances simp: loop_measure)

declare decodeListNotesResponse_loop.simps [simp del]

definition decodeListNotesResponse ::
  "(byte list \<Rightarrow> jsstring) \<Rightarrow> byte list \<Rightarrow> error + ListNotesResponse" where
  "decodeListNotesResponse textDecoder bs =
     decodeListNotesResponse_loop textDecoder (newReader bs) \<lparr>lnres_notes = []\<rparr>"

definition encodeUpdateNoteRequest ::
  "(jsstring \<Rightarrow> byte list) \<Rightarrow> UpdateNoteRequest \<Rightarrow> error + byte list" where
  "encodeUpdateNoteRequest textEncoder message =
     (let w1 = (case unreq_title message of
                  Some title \<Rightarrow> writeString textEncoder 1 title newWriter
                | None \<Rightarrow> newWriter);
          w2 = (case unreq_body message of
                  Some body \<Rightarrow> writeString textEncoder 2 body w1
                | None \<Rightarrow> w1)
      in Inr (finish w2))"

definition decodeUpdateNoteRequest_field ::
  "(byte list \<Rightarrow> jsstring) \<Rightarrow> Tag \<Rightarrow> Reader \<Rightarrow> UpdateNoteRequest
   \<Rightarrow> error + Reader \<times> UpdateNoteRequest" where
  "decodeUpdateNoteRequest_field textDecoder tag reader message =
     (if fieldNumber tag = 1 then
        (case readString textDecoder reader of Inl e \<Rightarrow> Inl e
         | Inr (v, r) \<Rightarrow> Inr (r, message\<lparr>unreq_title := Some v\<rparr>))
      else if fieldNumber tag = 2 then
        (case readString textDecoder reader of Inl e \<Rightarrow> Inl e
         | Inr (v, r) \<Rightarrow> Inr (r, message\<lparr>unreq_body := Some v\<rparr>))
      else
        (case skipField (wireType tag) reader of Inl e \<Rightarrow> Inl e
         | Inr r \<Rightarrow> Inr (r, message)))"

lemma decodeUpdateNoteRequest_field_advances:
  "decodeUpdateNoteRequest_field textDecoder tag reader message = Inr (r', message') \<Longrightarrow> advances reader r'"
  unfolding decodeUpdateNoteRequest_field_def advances_def
  by (auto split: if_splits sum.splits
      dest: readInt64_progress readString_progress readBytes_progress skipField_progress)

function decodeUpdateNoteRequest_loop :: "(byte list \<Rightarrow> jsstring) \<Rightarrow> Reader \<Rightarrow> UpdateNoteRequest \<Rightarrow> error + UpdateNoteRequest" where
  "decodeUpdateNoteRequest_loop textDecoder reader message =
     (if eof reader then Inr message
      else case readTag reader of
             Inl e \<Rightarrow> Inl e
           | Inr (tag, r1) \<Rightarrow>
               (case decodeUpdateNoteRequest_field textDecoder tag r1 message of
                  Inl e \<Rightarrow> Inl e
                | Inr (r2, message') \<Rightarrow> decodeUpdateNoteRequest_loop textDecoder r2 message'))"
  by pat_completeness auto
termination
  by (relation "measure (\<lambda>(textDecoder, r, m). length (payload r) - offset r)")
     (auto dest: decodeUpdateNoteRequest_field_advances simp: loop_measure)

declare decodeUpdateNoteRequest_loop.simps [simp del]

definition decodeUpdateNoteRequest ::
  "(byte list \<Rightarrow> jsstring) \<Rightarrow> byte list \<Rightarrow> error + UpdateNoteRequest" where
  "decodeUpdateNoteRequest textDecoder bs =
     decodeUpdateNoteRequest_loop textDecoder (newReader bs)
       \<lparr>unreq_title = None, unreq_body = None\<rparr>"

definition encodeUpdateNoteResponse ::
  "(jsstring \<Rightarrow> byte list) \<Rightarrow> UpdateNoteResponse \<Rightarrow> error + byte list" where
  "encodeUpdateNoteResponse textEncoder message =
     (case unres_note message of
        None \<Rightarrow> Inr (finish newWriter)
      | Some note \<Rightarrow>
          (case encodeNote textEncoder note of
             Inl e \<Rightarrow> Inl e
           | Inr bs \<Rightarrow> Inr (finish (writeMessage 1 bs newWriter))))"

definition decodeUpdateNoteResponse_field ::
  "(byte list \<Rightarrow> jsstring) \<Rightarrow> Tag \<Rightarrow> Reader \<Rightarrow> UpdateNoteResponse
   \<Rightarrow> error + Reader \<times> UpdateNoteResponse" where
  "decodeUpdateNoteResponse_field textDecoder tag reader message =
     (if fieldNumber tag = 1 then
        (case readBytes reader of Inl e \<Rightarrow> Inl e
         | Inr (bs, r) \<Rightarrow>
             (case decodeNote textDecoder bs of Inl e \<Rightarrow> Inl e
              | Inr note \<Rightarrow> Inr (r, message\<lparr>unres_note := Some note\<rparr>)))
      else
        (case skipField (wireType tag) reader of Inl e \<Rightarrow> Inl e
         | Inr r \<Rightarrow> Inr (r, message)))"

lemma decodeUpdateNoteResponse_field_advances:
  "decodeUpdateNoteResponse_field textDecoder tag reader message = Inr (r', message') \<Longrightarrow> advances reader r'"
  unfolding decodeUpdateNoteResponse_field_def advances_def
  by (auto split: if_splits sum.splits
      dest: readInt64_progress readString_progress readBytes_progress skipField_progress)

function decodeUpdateNoteResponse_loop :: "(byte list \<Rightarrow> jsstring) \<Rightarrow> Reader \<Rightarrow> UpdateNoteResponse \<Rightarrow> error + UpdateNoteResponse" where
  "decodeUpdateNoteResponse_loop textDecoder reader message =
     (if eof reader then Inr message
      else case readTag reader of
             Inl e \<Rightarrow> Inl e
           | Inr (tag, r1) \<Rightarrow>
               (case decodeUpdateNoteResponse_field textDecoder tag r1 message of
                  Inl e \<Rightarrow> Inl e
                | Inr (r2, message') \<Rightarrow> decodeUpdateNoteResponse_loop textDecoder r2 message'))"
  by pat_completeness auto
termination
  by (relation "measure (\<lambda>(textDecoder, r, m). length (payload r) - offset r)")
     (auto dest: decodeUpdateNoteResponse_field_advances simp: loop_measure)

declare decodeUpdateNoteResponse_loop.simps [simp del]

definition decodeUpdateNoteResponse ::
  "(byte list \<Rightarrow> jsstring) \<Rightarrow> byte list \<Rightarrow> error + UpdateNoteResponse" where
  "decodeUpdateNoteResponse textDecoder bs =
     decodeUpdateNoteResponse_loop textDecoder (newReader bs) \<lparr>unres_note = None\<rparr>"

definition encodeDeleteNoteResponse :: "DeleteNoteResponse \<Rightarrow> error + byte list" where
  "encodeDeleteNoteResponse message =
     (case writeInt64 1 (dnres_id message) newWriter of
        Inl e \<Rightarrow> Inl e
      | Inr w \<Rightarrow> Inr (finish w))"

definition decodeDeleteNoteResponse_field ::
  "Tag \<Rightarrow> Reader \<Rightarrow> DeleteNoteResponse \<Rightarrow> error + Reader \<times> DeleteNoteResponse" where
  "decodeDeleteNoteResponse_field tag reader message =
     (if fieldNumber tag = 1 then
        (case readInt64 reader of Inl e \<Rightarrow> Inl e
         | Inr (v, r) \<Rightarrow> Inr (r, message\<lparr>dnres_id := v\<rparr>))
      else
        (case skipField (wireType tag) reader of Inl e \<Rightarrow> Inl e
         | Inr r \<Rightarrow> Inr (r, message)))"

lemma decodeDeleteNoteResponse_field_advances:
  "decodeDeleteNoteResponse_field tag reader message = Inr (r', message') \<Longrightarrow> advances reader r'"
  unfolding decodeDeleteNoteResponse_field_def advances_def
  by (auto split: if_splits sum.splits
      dest: readInt64_progress readString_progress readBytes_progress skipField_progress)

function decodeDeleteNoteResponse_loop :: "Reader \<Rightarrow> DeleteNoteResponse \<Rightarrow> error + DeleteNoteResponse" where
  "decodeDeleteNoteResponse_loop reader message =
     (if eof reader then Inr message
      else case readTag reader of
             Inl e \<Rightarrow> Inl e
           | Inr (tag, r1) \<Rightarrow>
               (case decodeDeleteNoteResponse_field tag r1 message of
                  Inl e \<Rightarrow> Inl e
                | Inr (r2, message') \<Rightarrow> decodeDeleteNoteResponse_loop r2 message'))"
  by pat_completeness auto
termination
  by (relation "measure (\<lambda>(r, m). length (payload r) - offset r)")
     (auto dest: decodeDeleteNoteResponse_field_advances simp: loop_measure)

declare decodeDeleteNoteResponse_loop.simps [simp del]

definition decodeDeleteNoteResponse :: "byte list \<Rightarrow> error + DeleteNoteResponse" where
  "decodeDeleteNoteResponse bs = decodeDeleteNoteResponse_loop (newReader bs) \<lparr>dnres_id = Finite 0\<rparr>"

definition encodeNoteDelta :: "(jsstring \<Rightarrow> byte list) \<Rightarrow> NoteDelta \<Rightarrow> error + byte list" where
  "encodeNoteDelta textEncoder message =
     (case writeInt64 1 (nd_id message) newWriter of
        Inl e \<Rightarrow> Inl e
      | Inr w1 \<Rightarrow>
          (let w2 = (case nd_title message of
                       Some title \<Rightarrow> writeString textEncoder 2 title w1
                     | None \<Rightarrow> w1);
               w3 = (case nd_body message of
                       Some body \<Rightarrow> writeString textEncoder 3 body w2
                     | None \<Rightarrow> w2)
           in case writeInt64 4 (nd_updated_at_unix_ms message) w3 of
                Inl e \<Rightarrow> Inl e
              | Inr w4 \<Rightarrow>
                  (case writeInt64 5 (nd_version message) w4 of
                     Inl e \<Rightarrow> Inl e
                   | Inr w5 \<Rightarrow> Inr (finish w5))))"

definition decodeNoteDelta_field ::
  "(byte list \<Rightarrow> jsstring) \<Rightarrow> Tag \<Rightarrow> Reader \<Rightarrow> NoteDelta \<Rightarrow> error + Reader \<times> NoteDelta" where
  "decodeNoteDelta_field textDecoder tag reader message =
     (if fieldNumber tag = 1 then
        (case readInt64 reader of Inl e \<Rightarrow> Inl e
         | Inr (v, r) \<Rightarrow> Inr (r, message\<lparr>nd_id := v\<rparr>))
      else if fieldNumber tag = 2 then
        (case readString textDecoder reader of Inl e \<Rightarrow> Inl e
         | Inr (v, r) \<Rightarrow> Inr (r, message\<lparr>nd_title := Some v\<rparr>))
      else if fieldNumber tag = 3 then
        (case readString textDecoder reader of Inl e \<Rightarrow> Inl e
         | Inr (v, r) \<Rightarrow> Inr (r, message\<lparr>nd_body := Some v\<rparr>))
      else if fieldNumber tag = 4 then
        (case readInt64 reader of Inl e \<Rightarrow> Inl e
         | Inr (v, r) \<Rightarrow> Inr (r, message\<lparr>nd_updated_at_unix_ms := v\<rparr>))
      else if fieldNumber tag = 5 then
        (case readInt64 reader of Inl e \<Rightarrow> Inl e
         | Inr (v, r) \<Rightarrow> Inr (r, message\<lparr>nd_version := v\<rparr>))
      else
        (case skipField (wireType tag) reader of Inl e \<Rightarrow> Inl e
         | Inr r \<Rightarrow> Inr (r, message)))"

lemma decodeNoteDelta_field_advances:
  "decodeNoteDelta_field textDecoder tag reader message = Inr (r', message') \<Longrightarrow> advances reader r'"
  unfolding decodeNoteDelta_field_def advances_def
  by (auto split: if_splits sum.splits
      dest: readInt64_progress readString_progress readBytes_progress skipField_progress)

function decodeNoteDelta_loop :: "(byte list \<Rightarrow> jsstring) \<Rightarrow> Reader \<Rightarrow> NoteDelta \<Rightarrow> error + NoteDelta" where
  "decodeNoteDelta_loop textDecoder reader message =
     (if eof reader then Inr message
      else case readTag reader of
             Inl e \<Rightarrow> Inl e
           | Inr (tag, r1) \<Rightarrow>
               (case decodeNoteDelta_field textDecoder tag r1 message of
                  Inl e \<Rightarrow> Inl e
                | Inr (r2, message') \<Rightarrow> decodeNoteDelta_loop textDecoder r2 message'))"
  by pat_completeness auto
termination
  by (relation "measure (\<lambda>(textDecoder, r, m). length (payload r) - offset r)")
     (auto dest: decodeNoteDelta_field_advances simp: loop_measure)

declare decodeNoteDelta_loop.simps [simp del]

definition decodeNoteDelta :: "(byte list \<Rightarrow> jsstring) \<Rightarrow> byte list \<Rightarrow> error + NoteDelta" where
  "decodeNoteDelta textDecoder bs =
     decodeNoteDelta_loop textDecoder (newReader bs)
       \<lparr>nd_id = Finite 0, nd_title = None, nd_body = None,
        nd_updated_at_unix_ms = Finite 0, nd_version = Finite 0\<rparr>"

definition encodeNoteDeleted :: "NoteDeleted \<Rightarrow> error + byte list" where
  "encodeNoteDeleted message =
     (case writeInt64 1 (deleted_id message) newWriter of
        Inl e \<Rightarrow> Inl e
      | Inr w \<Rightarrow> Inr (finish w))"

definition decodeNoteDeleted_field ::
  "Tag \<Rightarrow> Reader \<Rightarrow> NoteDeleted \<Rightarrow> error + Reader \<times> NoteDeleted" where
  "decodeNoteDeleted_field tag reader message =
     (if fieldNumber tag = 1 then
        (case readInt64 reader of Inl e \<Rightarrow> Inl e
         | Inr (v, r) \<Rightarrow> Inr (r, message\<lparr>deleted_id := v\<rparr>))
      else
        (case skipField (wireType tag) reader of Inl e \<Rightarrow> Inl e
         | Inr r \<Rightarrow> Inr (r, message)))"

lemma decodeNoteDeleted_field_advances:
  "decodeNoteDeleted_field tag reader message = Inr (r', message') \<Longrightarrow> advances reader r'"
  unfolding decodeNoteDeleted_field_def advances_def
  by (auto split: if_splits sum.splits
      dest: readInt64_progress readString_progress readBytes_progress skipField_progress)

function decodeNoteDeleted_loop :: "Reader \<Rightarrow> NoteDeleted \<Rightarrow> error + NoteDeleted" where
  "decodeNoteDeleted_loop reader message =
     (if eof reader then Inr message
      else case readTag reader of
             Inl e \<Rightarrow> Inl e
           | Inr (tag, r1) \<Rightarrow>
               (case decodeNoteDeleted_field tag r1 message of
                  Inl e \<Rightarrow> Inl e
                | Inr (r2, message') \<Rightarrow> decodeNoteDeleted_loop r2 message'))"
  by pat_completeness auto
termination
  by (relation "measure (\<lambda>(r, m). length (payload r) - offset r)")
     (auto dest: decodeNoteDeleted_field_advances simp: loop_measure)

declare decodeNoteDeleted_loop.simps [simp del]

definition decodeNoteDeleted :: "byte list \<Rightarrow> error + NoteDeleted" where
  "decodeNoteDeleted bs = decodeNoteDeleted_loop (newReader bs) \<lparr>deleted_id = Finite 0\<rparr>"

text \<open>
  \<open>encodeNoteEvent\<close> tests \<open>message.event?.kind\<close> three times; at most one test
  succeeds, which is this case distinction.
\<close>

definition encodeNoteEvent :: "(jsstring \<Rightarrow> byte list) \<Rightarrow> NoteEvent \<Rightarrow> error + byte list" where
  "encodeNoteEvent textEncoder message =
     (case message of
        EventCreated note \<Rightarrow>
          (case encodeNote textEncoder note of
             Inl e \<Rightarrow> Inl e
           | Inr bs \<Rightarrow> Inr (finish (writeMessage 1 bs newWriter)))
      | EventUpdated delta \<Rightarrow>
          (case encodeNoteDelta textEncoder delta of
             Inl e \<Rightarrow> Inl e
           | Inr bs \<Rightarrow> Inr (finish (writeMessage 2 bs newWriter)))
      | EventDeleted deleted \<Rightarrow>
          (case encodeNoteDeleted deleted of
             Inl e \<Rightarrow> Inl e
           | Inr bs \<Rightarrow> Inr (finish (writeMessage 3 bs newWriter)))
      | EventUndefined \<Rightarrow> Inr (finish newWriter))"

definition decodeNoteEvent_field ::
  "(byte list \<Rightarrow> jsstring) \<Rightarrow> Tag \<Rightarrow> Reader \<Rightarrow> NoteEvent \<Rightarrow> error + Reader \<times> NoteEvent" where
  "decodeNoteEvent_field textDecoder tag reader message =
     (if fieldNumber tag = 1 then
        (case readBytes reader of Inl e \<Rightarrow> Inl e
         | Inr (bs, r) \<Rightarrow>
             (case decodeNote textDecoder bs of Inl e \<Rightarrow> Inl e
              | Inr note \<Rightarrow> Inr (r, EventCreated note)))
      else if fieldNumber tag = 2 then
        (case readBytes reader of Inl e \<Rightarrow> Inl e
         | Inr (bs, r) \<Rightarrow>
             (case decodeNoteDelta textDecoder bs of Inl e \<Rightarrow> Inl e
              | Inr delta \<Rightarrow> Inr (r, EventUpdated delta)))
      else if fieldNumber tag = 3 then
        (case readBytes reader of Inl e \<Rightarrow> Inl e
         | Inr (bs, r) \<Rightarrow>
             (case decodeNoteDeleted bs of Inl e \<Rightarrow> Inl e
              | Inr deleted \<Rightarrow> Inr (r, EventDeleted deleted)))
      else
        (case skipField (wireType tag) reader of Inl e \<Rightarrow> Inl e
         | Inr r \<Rightarrow> Inr (r, message)))"

lemma decodeNoteEvent_field_advances:
  "decodeNoteEvent_field textDecoder tag reader message = Inr (r', message') \<Longrightarrow> advances reader r'"
  unfolding decodeNoteEvent_field_def advances_def
  by (auto split: if_splits sum.splits
      dest: readInt64_progress readString_progress readBytes_progress skipField_progress)

function decodeNoteEvent_loop :: "(byte list \<Rightarrow> jsstring) \<Rightarrow> Reader \<Rightarrow> NoteEvent \<Rightarrow> error + NoteEvent" where
  "decodeNoteEvent_loop textDecoder reader message =
     (if eof reader then Inr message
      else case readTag reader of
             Inl e \<Rightarrow> Inl e
           | Inr (tag, r1) \<Rightarrow>
               (case decodeNoteEvent_field textDecoder tag r1 message of
                  Inl e \<Rightarrow> Inl e
                | Inr (r2, message') \<Rightarrow> decodeNoteEvent_loop textDecoder r2 message'))"
  by pat_completeness auto
termination
  by (relation "measure (\<lambda>(textDecoder, r, m). length (payload r) - offset r)")
     (auto dest: decodeNoteEvent_field_advances simp: loop_measure)

declare decodeNoteEvent_loop.simps [simp del]

definition decodeNoteEvent :: "(byte list \<Rightarrow> jsstring) \<Rightarrow> byte list \<Rightarrow> error + NoteEvent" where
  "decodeNoteEvent textDecoder bs = decodeNoteEvent_loop textDecoder (newReader bs) EventUndefined"



section \<open>Properties of the wire codec\<close>

subsection \<open>Varints: what \<open>writeVarint\<close> writes, \<open>readVarint\<close> reads\<close>

lemma or_push_bit_add:
  fixes a b :: nat
  assumes "a < 2 ^ s"
  shows "a OR push_bit s b = a + b * 2 ^ s"
proof -
  have "\<not> bit a n \<or> \<not> bit (push_bit s b) n" for n
  proof (cases "n < s")
    case True
    then show ?thesis by (simp add: bit_push_bit_iff)
  next
    case False
    then have "(2::nat) ^ s \<le> 2 ^ n" by simp
    with assms have "a < 2 ^ n" by (rule less_le_trans)
    then have "a div 2 ^ n = 0" by simp
    then show ?thesis by (simp add: bit_iff_odd)
  qed
  then have "a + push_bit s b = a OR push_bit s b" by (rule disjunctive_add)
  then show ?thesis by (simp add: push_bit_eq_mult)
qed

lemma nat_and_127: "(n::nat) AND 127 = n mod 128"
proof -
  have "(127::nat) = mask 7" by (simp add: mask_eq_exp_minus_1)
  then have "n AND 127 = take_bit 7 n" by (simp only: take_bit_eq_mask)
  then show ?thesis by (simp add: take_bit_eq_mod)
qed

lemma nat_and_128_zero: "(n::nat) AND 128 = 0 \<longleftrightarrow> even (n div 128)"
  using and_exp_eq_0_iff_not_bit [of n 7] by (simp add: bit_iff_odd)

lemma continuation_byte_value: "((n::nat) AND 0x7f) OR 0x80 = n mod 128 + 128"
  using or_push_bit_add [of "n mod 128" 7 1] by (simp add: nat_and_127)

lemma unat_byte_and: "unat ((of_nat m :: byte) AND of_nat k) = (m mod 256) AND (k mod 256)"
  by (simp add: unsigned_and_eq unat_of_nat)

lemma byte_low7: "unat ((of_nat m :: byte) AND 0x7f) = m mod 128"
proof -
  have "unat ((of_nat m :: byte) AND of_nat 127) = (m mod 256) mod 128"
    unfolding unat_byte_and by (simp add: nat_and_127)
  then show ?thesis by (simp add: mod_mod_cancel)
qed

lemma byte_high_bit: "(of_nat m :: byte) AND 0x80 = 0 \<longleftrightarrow> even (m mod 256 div 128)"
proof -
  have "unat ((of_nat m :: byte) AND of_nat 128) = (m mod 256) AND 128"
    unfolding unat_byte_and by simp
  then have "unat ((of_nat m :: byte) AND 0x80) = 0 \<longleftrightarrow> even (m mod 256 div 128)"
    by (simp add: nat_and_128_zero)
  then show ?thesis by (simp add: unat_eq_0)
qed

lemma last_byte: "n < 128 \<Longrightarrow> (of_nat n :: byte) AND 0x80 = 0 \<and> unat ((of_nat n :: byte) AND 0x7f) = n"
  by (simp add: byte_low7 byte_high_bit)

lemma continuation_byte:
  "(of_nat ((n AND 0x7f) OR 0x80) :: byte) AND 0x80 \<noteq> 0
   \<and> unat ((of_nat ((n AND 0x7f) OR 0x80) :: byte) AND 0x7f) = n mod 128"
proof -
  have "(n mod 128 + 128) mod 256 = n mod 128 + 128"
    by (simp add: mod_less)
  moreover have "(n mod 128 + 128) div 128 = 1" by simp
  ultimately show ?thesis
    unfolding continuation_byte_value byte_low7 byte_high_bit by simp
qed


text \<open>
  \<open>varintBytes n\<close> is the byte sequence \<open>writeVarint\<close> appends for \<open>n\<close>;
  \<open>remaining r\<close> is what the reader has not consumed, and \<open>advance r n\<close> moves it
  forward by \<open>n\<close> bytes.
\<close>

function varintBytes :: "nat \<Rightarrow> byte list" where
  "varintBytes n =
     (if n \<ge> 0x80 then of_nat ((n AND 0x7f) OR 0x80) # varintBytes (drop_bit 7 n)
      else [of_nat n])"
  by pat_completeness auto
termination
  by (relation "measure (\<lambda>n. n)") (auto simp: drop_bit_eq_div)

declare varintBytes.simps [simp del]

definition remaining :: "Reader \<Rightarrow> byte list" where
  "remaining r = drop (offset r) (payload r)"

definition advance :: "Reader \<Rightarrow> nat \<Rightarrow> Reader" where
  "advance r n = r\<lparr>offset := offset r + n\<rparr>"

lemma writeVarint_bytes: "bytes (writeVarint n w) = bytes w @ varintBytes n"
proof (induction n w rule: writeVarint.induct)
  case (1 current w)
  show ?case
  proof (cases "current \<ge> 0x80")
    case True
    with 1 show ?thesis
      by (subst writeVarint.simps, subst varintBytes.simps) simp
  next
    case False
    then show ?thesis
      by (subst writeVarint.simps, subst varintBytes.simps) simp
  qed
qed

lemma remaining_Cons:
  assumes "remaining r = b # rest"
  shows "offset r < length (payload r)" and "payload r ! offset r = b"
    and "remaining (r\<lparr>offset := offset r + 1\<rparr>) = rest"
proof -
  from assms have d: "drop (offset r) (payload r) = b # rest" by (simp add: remaining_def)
  then show "offset r < length (payload r)"
    by (metis drop_all list.distinct(1) not_le)
  from d show "payload r ! offset r = b" by (rule nth_via_drop)
  from d have "drop (Suc (offset r)) (payload r) = rest"
    by (metis drop_Suc list.sel(3) tl_drop)
  then show "remaining (r\<lparr>offset := offset r + 1\<rparr>) = rest" by (simp add: remaining_def)
qed

lemma remaining_advance:
  "remaining r = a @ b \<Longrightarrow> remaining (advance r (length a)) = b"
  unfolding remaining_def advance_def
  by (simp add: add.commute [of "offset r"] flip: drop_drop)

lemma advance_advance: "advance (advance r a) b = advance r (a + b)"
  by (simp add: advance_def add.assoc)

lemma advance_fields [simp]:
  "payload (advance r n) = payload r" "offset (advance r n) = offset r + n"
  by (simp_all add: advance_def)

lemma readVarint_loop_varintBytes:
  assumes "remaining r = varintBytes n @ rest"
    and "n < 2 ^ (70 - shift)" and "shift mod 7 = 0" and "shift \<le> 63" and "val < 2 ^ shift"
  shows "readVarint_loop r shift val
         = Inr (val + n * 2 ^ shift, advance r (length (varintBytes n)))"
  using assms
proof (induction n arbitrary: r shift val rule: varintBytes.induct)
  case (1 n)
  show ?case
  proof (cases "n \<ge> 0x80")
    case False
    then have n: "n < 128" by simp
    then have vb: "varintBytes n = [of_nat n]" by (subst varintBytes.simps) simp
    from "1.prems"(1) have rem: "remaining r = of_nat n # rest" by (simp add: vb)
    note c = remaining_Cons [OF rem]
    show ?thesis
      using c(1,2) last_byte [OF n] "1.prems"(5)
      by (subst readVarint_loop.simps) (simp add: Let_def vb advance_def or_push_bit_add)
  next
    case True
    let ?b = "of_nat ((n AND 0x7f) OR 0x80) :: byte"
    let ?n' = "drop_bit 7 n"
    let ?r' = "r\<lparr>offset := offset r + 1\<rparr>"
    let ?val' = "val + (n mod 128) * 2 ^ shift"
    from True have vb: "varintBytes n = ?b # varintBytes ?n'"
      by (subst varintBytes.simps) simp
    from "1.prems"(1) have rem: "remaining r = ?b # (varintBytes ?n' @ rest)" by (simp add: vb)
    note c = remaining_Cons [OF rem]
    have n': "?n' = n div 128" by (simp add: drop_bit_eq_div)
    have sh: "shift \<le> 56"
    proof (rule ccontr)
      assume "\<not> shift \<le> 56"
      with "1.prems"(3,4) have "shift = 63" by presburger
      with "1.prems"(2) True show False by simp
    qed
    have bound: "?n' < 2 ^ (70 - (shift + 7))"
    proof -
      from sh have "70 - shift = 7 + (70 - (shift + 7))" by simp
      then have "(2::nat) ^ (70 - shift) = 2 ^ 7 * 2 ^ (70 - (shift + 7))"
        by (simp only: power_add)
      with "1.prems"(2) have "n < 128 * 2 ^ (70 - (shift + 7))" by simp
      then show ?thesis unfolding n' by (simp add: div_less_iff_less_mult mult.commute)
    qed
    have val': "?val' < 2 ^ (shift + 7)"
    proof -
      have "(n mod 128) * 2 ^ shift \<le> 127 * 2 ^ shift" by simp
      with "1.prems"(5) have "?val' < 2 ^ shift + 127 * 2 ^ shift" by linarith
      then show ?thesis by (simp add: power_add)
    qed
    have IH: "readVarint_loop ?r' (shift + 7) ?val'
              = Inr (?val' + ?n' * 2 ^ (shift + 7), advance ?r' (length (varintBytes ?n')))"
      using "1.IH" [OF True c(3) bound _ _ val'] "1.prems"(3) sh by simp
    have total: "?val' + ?n' * 2 ^ (shift + 7) = val + n * 2 ^ shift"
    proof -
      have "(n div 128) * 2 ^ (shift + 7) = (128 * (n div 128)) * 2 ^ shift"
        by (simp add: power_add)
      then have "(n mod 128) * 2 ^ shift + (n div 128) * 2 ^ (shift + 7)
                 = (n mod 128 + 128 * (n div 128)) * 2 ^ shift"
        by (simp only: add_mult_distrib)
      also have "\<dots> = n * 2 ^ shift" by simp
      finally show ?thesis by (simp add: n')
    qed
    show ?thesis
      using c(1,2) continuation_byte [of n] sh "1.prems"(5) IH total
      by (subst readVarint_loop.simps)
         (simp add: Let_def vb advance_def or_push_bit_add)
  qed
qed




lemma readVarint_varintBytes:
  "remaining r = varintBytes n @ rest \<Longrightarrow> n < 2 ^ 70
   \<Longrightarrow> readVarint r = Inr (n, advance r (length (varintBytes n)))"
  using readVarint_loop_varintBytes [of r n rest 0 0] by (simp add: readVarint_def)

lemma roundingUnit_small: "v < 2 ^ 53 \<Longrightarrow> roundingUnit v = 1"
  by (subst roundingUnit.simps) simp

lemma Number_of_bigint_small: "v < 2 ^ 53 \<Longrightarrow> Number_of_bigint v = v"
  by (simp add: Number_of_bigint_def roundingUnit_small)

subsection \<open>Wire fields\<close>

text \<open>
  A field on the wire is a tag followed by a varint (wire type 0) or by a length and that
  many bytes (wire type 2). \<open>wire fs\<close> is the concatenation of the fields \<open>fs\<close>. A field
  is \<open>okField\<close> when its number fits the wire format (below \<open>2^29\<close>, so that the tag fits
  32 bits), a varint value fits 64 bits and a length-delimited body is shorter than \<open>2^53\<close>
  bytes (as every typed array is).
\<close>

datatype field = VarintField nat nat | LenField nat "byte list"

fun fnum :: "field \<Rightarrow> nat" where
  "fnum (VarintField k v) = k"
| "fnum (LenField k bs) = k"

fun wtype :: "field \<Rightarrow> nat" where
  "wtype (VarintField k v) = 0"
| "wtype (LenField k bs) = 2"

fun fieldBody :: "field \<Rightarrow> byte list" where
  "fieldBody (VarintField k v) = varintBytes v"
| "fieldBody (LenField k bs) = varintBytes (length bs) @ bs"

definition tagBytes :: "nat \<Rightarrow> nat \<Rightarrow> byte list" where
  "tagBytes k wt = varintBytes (push_bit 3 k OR wt)"

definition fieldBytes :: "field \<Rightarrow> byte list" where
  "fieldBytes f = tagBytes (fnum f) (wtype f) @ fieldBody f"

definition wire :: "field list \<Rightarrow> byte list" where
  "wire fs = concat (map fieldBytes fs)"

fun okField :: "field \<Rightarrow> bool" where
  "okField (VarintField k v) \<longleftrightarrow> k < 2 ^ 29 \<and> v < 2 ^ 64"
| "okField (LenField k bs) \<longleftrightarrow> k < 2 ^ 29 \<and> length bs < 2 ^ 53"

lemma tag_value: "(wt::nat) < 8 \<Longrightarrow> push_bit 3 (k::nat) OR wt = k * 8 + wt"
  using or_push_bit_add [of wt 3 k] by (simp add: or.commute)

lemma readTag_tagBytes:
  assumes "remaining r = tagBytes k wt @ rest" and "k < 2 ^ 29" and "wt < 8"
  shows "readTag r = Inr (\<lparr>fieldNumber = k, wireType = wt\<rparr>, advance r (length (tagBytes k wt)))"
proof -
  let ?v = "k * 8 + wt"
  from assms(2,3) have small: "?v < 2 ^ 32" by simp
  then have "?v < 2 ^ 70" "?v < 2 ^ 53" by simp_all
  moreover from assms have "remaining r = varintBytes ?v @ rest"
    by (simp add: tagBytes_def tag_value)
  ultimately have "readVarint r = Inr (?v, advance r (length (varintBytes ?v)))"
    and "Number_of_bigint ?v = ?v"
    by (simp_all add: readVarint_varintBytes Number_of_bigint_small)
  moreover have "?v mod 2 ^ 32 div 2 ^ 3 = k" "?v mod 8 = wt"
    using small assms(3) by simp_all
  ultimately show ?thesis
    using assms(3) by (simp add: readTag_def tagBytes_def tag_value Let_def)
qed

lemma readInt64_varintBytes:
  assumes "remaining r = varintBytes n @ rest" and "n < 2 ^ 70"
  shows "readInt64 r = (if n > MAX_SAFE_INTEGER then Inl (Int64ExceedsMaxSafe n)
                        else Inr (Finite (of_nat n), advance r (length (varintBytes n))))"
proof -
  have "n \<le> MAX_SAFE_INTEGER \<Longrightarrow> Number_of_bigint n = n"
    by (rule Number_of_bigint_small) (simp add: MAX_SAFE_INTEGER_def)
  then show ?thesis
    using readVarint_varintBytes [OF assms] by (simp add: readInt64_def)
qed

lemma readBytes_body:
  assumes "remaining r = varintBytes (length bs) @ bs @ rest" and "length bs < 2 ^ 53"
  shows "readBytes r = Inr (bs, advance r (length (varintBytes (length bs) @ bs)))"
proof -
  let ?r1 = "advance r (length (varintBytes (length bs)))"
  from assms(2) have "length bs < 2 ^ 70" by simp
  with assms(1) have rv: "readVarint r = Inr (length bs, ?r1)"
    by (rule readVarint_varintBytes)
  have rem1: "remaining ?r1 = bs @ rest"
    using assms(1) by (rule remaining_advance)
  then have "length (drop (offset ?r1) (payload ?r1)) = length bs + length rest"
    by (simp add: remaining_def)
  moreover have "offset ?r1 \<le> length (payload ?r1)"
    using readVarint_progress [OF rv] by simp
  ultimately have "length bs + offset ?r1 \<le> length (payload ?r1)"
    by simp
  moreover from rem1 have "take (length bs) (drop (offset ?r1) (payload ?r1)) = bs"
    by (simp add: remaining_def)
  ultimately show ?thesis
    using rv assms(2)
    by (simp add: readBytes_def Let_def Number_of_bigint_small advance_def add.assoc)
qed


lemma skipField_body:
  assumes "remaining r = fieldBody f @ rest" and "okField f"
  shows "skipField (wtype f) r = Inr (advance r (length (fieldBody f)))"
proof (cases f)
  case (VarintField k v)
  with assms have "remaining r = varintBytes v @ rest" "v < 2 ^ 70" by simp_all
  then have "readVarint r = Inr (v, advance r (length (varintBytes v)))"
    by (rule readVarint_varintBytes)
  with VarintField show ?thesis
    by (simp add: skipField_def WIRE_VARINT_def)
next
  case (LenField k bs)
  with assms have rem: "remaining r = varintBytes (length bs) @ bs @ rest"
    and len: "length bs < 2 ^ 53" by simp_all
  let ?r1 = "advance r (length (varintBytes (length bs)))"
  from len have "length bs < 2 ^ 70" by simp
  with rem have rv: "readVarint r = Inr (length bs, ?r1)"
    by (rule readVarint_varintBytes)
  have "remaining ?r1 = bs @ rest"
    using rem by (rule remaining_advance)
  then have "length (drop (offset ?r1) (payload ?r1)) = length bs + length rest"
    by (simp add: remaining_def)
  moreover have "offset ?r1 \<le> length (payload ?r1)"
    using readVarint_progress [OF rv] by simp
  ultimately have "length bs + offset ?r1 \<le> length (payload ?r1)"
    by simp
  with rv len LenField show ?thesis
    by (simp add: skipField_def WIRE_VARINT_def WIRE_LENGTH_DELIMITED_def Let_def
        Number_of_bigint_small advance_def add.assoc)
qed

subsection \<open>The shape shared by the eleven decoders\<close>

text \<open>
  Every \<open>switch\<close> of the decoders maps a field number to one of four actions: read an
  integer and store it, read a string and store it, read a nested message and store what it
  decodes to, or skip the field. \<open>specStep\<close> is that switch for a table \<open>spec\<close> from field
  numbers to actions; each \<open>decodeX_field\<close> is shown equal to \<open>specStep\<close> on its table, and
  the decoding loop on \<open>wire fs\<close> is shown to fold the fields' effects (\<open>specAct\<close>) over the
  message, in order.
\<close>

datatype 'm fieldSpec =
    IntField "number \<Rightarrow> 'm \<Rightarrow> 'm"
  | StrField "jsstring \<Rightarrow> 'm \<Rightarrow> 'm"
  | MsgField "byte list \<Rightarrow> 'm \<Rightarrow> error + 'm"
  | UnknownField

definition specStep ::
  "(byte list \<Rightarrow> jsstring) \<Rightarrow> (nat \<Rightarrow> 'm fieldSpec) \<Rightarrow> Tag \<Rightarrow> Reader \<Rightarrow> 'm \<Rightarrow> error + Reader \<times> 'm" where
  "specStep textDecoder spec tag reader message =
     (case spec (fieldNumber tag) of
        IntField upd \<Rightarrow>
          (case readInt64 reader of Inl e \<Rightarrow> Inl e | Inr (v, r) \<Rightarrow> Inr (r, upd v message))
      | StrField upd \<Rightarrow>
          (case readString textDecoder reader of Inl e \<Rightarrow> Inl e
           | Inr (v, r) \<Rightarrow> Inr (r, upd v message))
      | MsgField sub \<Rightarrow>
          (case readBytes reader of Inl e \<Rightarrow> Inl e
           | Inr (bs, r) \<Rightarrow> (case sub bs message of Inl e \<Rightarrow> Inl e | Inr m' \<Rightarrow> Inr (r, m')))
      | UnknownField \<Rightarrow>
          (case skipField (wireType tag) reader of Inl e \<Rightarrow> Inl e | Inr r \<Rightarrow> Inr (r, message)))"

fun specShape :: "'m fieldSpec \<Rightarrow> field \<Rightarrow> bool" where
  "specShape (IntField upd) f = (\<exists>k v. f = VarintField k v)"
| "specShape (StrField upd) f = (\<exists>k bs. f = LenField k bs)"
| "specShape (MsgField sub) f = (\<exists>k bs. f = LenField k bs)"
| "specShape UnknownField f = True"

fun specAct :: "(byte list \<Rightarrow> jsstring) \<Rightarrow> 'm fieldSpec \<Rightarrow> field \<Rightarrow> 'm \<Rightarrow> error + 'm" where
  "specAct textDecoder (IntField upd) (VarintField k v) m =
     (if v > MAX_SAFE_INTEGER then Inl (Int64ExceedsMaxSafe v) else Inr (upd (Finite (of_nat v)) m))"
| "specAct textDecoder (StrField upd) (LenField k bs) m = Inr (upd (textDecoder bs) m)"
| "specAct textDecoder (MsgField sub) (LenField k bs) m = sub bs m"
| "specAct textDecoder sp f m = Inr m"

fun foldE :: "('a \<Rightarrow> 'm \<Rightarrow> error + 'm) \<Rightarrow> 'a list \<Rightarrow> 'm \<Rightarrow> error + 'm" where
  "foldE act [] m = Inr m"
| "foldE act (f # fs) m = (case act f m of Inl e \<Rightarrow> Inl e | Inr m' \<Rightarrow> foldE act fs m')"

lemma specStep_field:
  assumes rem: "remaining r = fieldBody f @ rest" and ok: "okField f"
    and shape: "specShape (spec (fnum f)) f"
  shows "specStep textDecoder spec \<lparr>fieldNumber = fnum f, wireType = wtype f\<rparr> r m
         = (case specAct textDecoder (spec (fnum f)) f m of
              Inl e \<Rightarrow> Inl e
            | Inr m' \<Rightarrow> Inr (advance r (length (fieldBody f)), m'))"
proof (cases "spec (fnum f)")
  case (IntField upd)
  with shape obtain k v where f: "f = VarintField k v" by auto
  with rem ok have "remaining r = varintBytes v @ rest" "v < 2 ^ 70" by simp_all
  from readInt64_varintBytes [OF this] IntField f show ?thesis
    by (simp add: specStep_def)
next
  case (StrField upd)
  with shape obtain k bs where f: "f = LenField k bs" by auto
  with rem ok have "remaining r = varintBytes (length bs) @ bs @ rest" "length bs < 2 ^ 53"
    by simp_all
  from readBytes_body [OF this] StrField f show ?thesis
    by (simp add: specStep_def readString_def)
next
  case (MsgField sub)
  with shape obtain k bs where f: "f = LenField k bs" by auto
  with rem ok have "remaining r = varintBytes (length bs) @ bs @ rest" "length bs < 2 ^ 53"
    by simp_all
  from readBytes_body [OF this] MsgField f show ?thesis
    by (simp add: specStep_def split: sum.split)
next
  case UnknownField
  from skipField_body [OF rem ok] UnknownField show ?thesis
    by (cases f) (simp_all add: specStep_def)
qed

lemma okField_tag: "okField f \<Longrightarrow> fnum f < 2 ^ 29 \<and> wtype f < 8"
  by (cases f) simp_all

lemma remaining_Nil_eof: "remaining r = [] \<Longrightarrow> eof r"
  by (simp add: remaining_def eof_def)

lemma remaining_notNil: "remaining r = x # xs \<Longrightarrow> \<not> eof r"
  by (auto simp: remaining_def eof_def)

lemma varintBytes_notNil: "varintBytes n \<noteq> []"
  by (subst varintBytes.simps) simp

lemma spec_loop_fields:
  fixes loop :: "Reader \<Rightarrow> 'm \<Rightarrow> error + 'm"
  assumes unfold: "\<And>r m. loop r m =
      (if eof r then Inr m
       else case readTag r of
              Inl e \<Rightarrow> Inl e
            | Inr (tag, r1) \<Rightarrow>
                (case specStep textDecoder spec tag r1 m of
                   Inl e \<Rightarrow> Inl e
                 | Inr (r2, m') \<Rightarrow> loop r2 m'))"
    and ok: "\<forall>f\<in>set fs. okField f \<and> specShape (spec (fnum f)) f"
    and rem: "remaining r = wire fs"
  shows "loop r m = foldE (\<lambda>f. specAct textDecoder (spec (fnum f)) f) fs m"
  using ok rem
proof (induction fs arbitrary: r m)
  case Nil
  then have "eof r" by (simp add: wire_def remaining_Nil_eof)
  then show ?case by (subst unfold) simp
next
  case (Cons f fs)
  from Cons.prems(1) have okf: "okField f" and shape: "specShape (spec (fnum f)) f" by simp_all
  let ?t = "tagBytes (fnum f) (wtype f)"
  let ?r1 = "advance r (length ?t)"
  let ?r2 = "advance ?r1 (length (fieldBody f))"
  from Cons.prems(2) have rem0: "remaining r = ?t @ (fieldBody f @ wire fs)"
    by (simp add: wire_def fieldBytes_def)
  have "?t \<noteq> []" by (simp add: tagBytes_def varintBytes_notNil)
  with rem0 have "\<not> eof r"
    by (cases ?t) (auto dest: remaining_notNil)
  moreover have tag: "readTag r = Inr (\<lparr>fieldNumber = fnum f, wireType = wtype f\<rparr>, ?r1)"
    using rem0 okField_tag [OF okf] by (simp add: readTag_tagBytes)
  moreover have rem1: "remaining ?r1 = fieldBody f @ wire fs"
    using rem0 by (rule remaining_advance)
  have step: "specStep textDecoder spec \<lparr>fieldNumber = fnum f, wireType = wtype f\<rparr> ?r1 m
         = (case specAct textDecoder (spec (fnum f)) f m of
              Inl e \<Rightarrow> Inl e
            | Inr m' \<Rightarrow> Inr (?r2, m'))"
    using rem1 okf shape by (rule specStep_field)
  have rem2: "remaining ?r2 = wire fs"
    using rem1 by (rule remaining_advance)
  have IH: "loop ?r2 m' = foldE (\<lambda>f. specAct textDecoder (spec (fnum f)) f) fs m'" for m'
    using Cons.IH [OF _ rem2] Cons.prems(1) by simp
  ultimately show ?case
    by (subst unfold) (simp add: step IH split: sum.split)
qed

lemma foldE_filter:
  assumes "\<And>f m. f \<in> set fs \<Longrightarrow> \<not> P f \<Longrightarrow> act f m = Inr m"
  shows "foldE act (filter P fs) m = foldE act fs m"
  using assms by (induction fs arbitrary: m) (auto split: sum.split)

lemma foldE_append:
  "foldE act (xs @ ys) m = (case foldE act xs m of Inl e \<Rightarrow> Inl e | Inr m' \<Rightarrow> foldE act ys m')"
  by (induction xs arbitrary: m) (auto split: sum.split)




subsection \<open>The tables of the eleven decoders\<close>

lemma remaining_newReader: "remaining (newReader bs) = bs"
  by (simp add: remaining_def newReader_def)

definition noteDefault :: Note where
  "noteDefault = \<lparr>note_id = Finite 0, note_title = [], note_body = [],
        note_created_at_unix_ms = Finite 0, note_updated_at_unix_ms = Finite 0,
        note_version = Finite 0\<rparr>"

definition noteDeltaDefault :: NoteDelta where
  "noteDeltaDefault = \<lparr>nd_id = Finite 0, nd_title = None, nd_body = None,
        nd_updated_at_unix_ms = Finite 0, nd_version = Finite 0\<rparr>"

definition noteSpec :: "nat \<Rightarrow> Note fieldSpec" where
  "noteSpec k =
     (if k = 1 then IntField (\<lambda>v m. m\<lparr>note_id := v\<rparr>)
      else if k = 2 then StrField (\<lambda>v m. m\<lparr>note_title := v\<rparr>)
      else if k = 3 then StrField (\<lambda>v m. m\<lparr>note_body := v\<rparr>)
      else if k = 4 then IntField (\<lambda>v m. m\<lparr>note_created_at_unix_ms := v\<rparr>)
      else if k = 5 then IntField (\<lambda>v m. m\<lparr>note_updated_at_unix_ms := v\<rparr>)
      else if k = 6 then IntField (\<lambda>v m. m\<lparr>note_version := v\<rparr>)
      else UnknownField)"

lemma decodeNote_field_spec:
  "decodeNote_field textDecoder = specStep textDecoder (noteSpec)"
  by (intro ext) (simp add: decodeNote_field_def specStep_def noteSpec_def split: sum.split)

lemma decodeNote_wire:
  assumes "\<forall>f\<in>set fs. okField f \<and> specShape (noteSpec (fnum f)) f"
  shows "decodeNote textDecoder (wire fs)
         = foldE (\<lambda>f. specAct textDecoder (noteSpec (fnum f)) f) fs noteDefault"
  unfolding decodeNote_def noteDefault_def [symmetric]
proof (rule spec_loop_fields [where spec = "noteSpec" and textDecoder = textDecoder])
  fix r m
  show "decodeNote_loop textDecoder r m =
      (if eof r then Inr m
       else case readTag r of
              Inl e \<Rightarrow> Inl e
            | Inr (tag, r1) \<Rightarrow>
                (case specStep textDecoder (noteSpec) tag r1 m of
                   Inl e \<Rightarrow> Inl e
                 | Inr (r2, m') \<Rightarrow> decodeNote_loop textDecoder r2 m'))"
    by (subst decodeNote_loop.simps, unfold decodeNote_field_spec, rule refl)
next
  show "\<forall>f\<in>set fs. okField f \<and> specShape (noteSpec (fnum f)) f"
    by (rule assms)
next
  show "remaining (newReader (wire fs)) = wire fs"
    by (rule remaining_newReader)
qed

definition createNoteRequestSpec :: "nat \<Rightarrow> CreateNoteRequest fieldSpec" where
  "createNoteRequestSpec k =
     (if k = 1 then StrField (\<lambda>v m. m\<lparr>cnreq_title := v\<rparr>)
      else if k = 2 then StrField (\<lambda>v m. m\<lparr>cnreq_body := v\<rparr>)
      else UnknownField)"

lemma decodeCreateNoteRequest_field_spec:
  "decodeCreateNoteRequest_field textDecoder = specStep textDecoder (createNoteRequestSpec)"
  by (intro ext) (simp add: decodeCreateNoteRequest_field_def specStep_def createNoteRequestSpec_def split: sum.split)

lemma decodeCreateNoteRequest_wire:
  assumes "\<forall>f\<in>set fs. okField f \<and> specShape (createNoteRequestSpec (fnum f)) f"
  shows "decodeCreateNoteRequest textDecoder (wire fs)
         = foldE (\<lambda>f. specAct textDecoder (createNoteRequestSpec (fnum f)) f) fs \<lparr>cnreq_title = [], cnreq_body = []\<rparr>"
  unfolding decodeCreateNoteRequest_def
proof (rule spec_loop_fields [where spec = "createNoteRequestSpec" and textDecoder = textDecoder])
  fix r m
  show "decodeCreateNoteRequest_loop textDecoder r m =
      (if eof r then Inr m
       else case readTag r of
              Inl e \<Rightarrow> Inl e
            | Inr (tag, r1) \<Rightarrow>
                (case specStep textDecoder (createNoteRequestSpec) tag r1 m of
                   Inl e \<Rightarrow> Inl e
                 | Inr (r2, m') \<Rightarrow> decodeCreateNoteRequest_loop textDecoder r2 m'))"
    by (subst decodeCreateNoteRequest_loop.simps, unfold decodeCreateNoteRequest_field_spec, rule refl)
next
  show "\<forall>f\<in>set fs. okField f \<and> specShape (createNoteRequestSpec (fnum f)) f"
    by (rule assms)
next
  show "remaining (newReader (wire fs)) = wire fs"
    by (rule remaining_newReader)
qed

definition createNoteResponseSpec :: "(byte list \<Rightarrow> jsstring) \<Rightarrow> nat \<Rightarrow> CreateNoteResponse fieldSpec" where
  "createNoteResponseSpec textDecoder k =
     (if k = 1 then
        MsgField (\<lambda>bs m. case decodeNote textDecoder bs of
                             Inl e \<Rightarrow> Inl e
                           | Inr note \<Rightarrow> Inr (m\<lparr>cnres_note := Some note\<rparr>))
      else UnknownField)"

lemma decodeCreateNoteResponse_field_spec:
  "decodeCreateNoteResponse_field textDecoder = specStep textDecoder (createNoteResponseSpec textDecoder)"
  by (intro ext) (simp add: decodeCreateNoteResponse_field_def specStep_def createNoteResponseSpec_def split: sum.split)

lemma decodeCreateNoteResponse_wire:
  assumes "\<forall>f\<in>set fs. okField f \<and> specShape (createNoteResponseSpec textDecoder (fnum f)) f"
  shows "decodeCreateNoteResponse textDecoder (wire fs)
         = foldE (\<lambda>f. specAct textDecoder (createNoteResponseSpec textDecoder (fnum f)) f) fs \<lparr>cnres_note = None\<rparr>"
  unfolding decodeCreateNoteResponse_def
proof (rule spec_loop_fields [where spec = "createNoteResponseSpec textDecoder" and textDecoder = textDecoder])
  fix r m
  show "decodeCreateNoteResponse_loop textDecoder r m =
      (if eof r then Inr m
       else case readTag r of
              Inl e \<Rightarrow> Inl e
            | Inr (tag, r1) \<Rightarrow>
                (case specStep textDecoder (createNoteResponseSpec textDecoder) tag r1 m of
                   Inl e \<Rightarrow> Inl e
                 | Inr (r2, m') \<Rightarrow> decodeCreateNoteResponse_loop textDecoder r2 m'))"
    by (subst decodeCreateNoteResponse_loop.simps, unfold decodeCreateNoteResponse_field_spec, rule refl)
next
  show "\<forall>f\<in>set fs. okField f \<and> specShape (createNoteResponseSpec textDecoder (fnum f)) f"
    by (rule assms)
next
  show "remaining (newReader (wire fs)) = wire fs"
    by (rule remaining_newReader)
qed

definition getNoteResponseSpec :: "(byte list \<Rightarrow> jsstring) \<Rightarrow> nat \<Rightarrow> GetNoteResponse fieldSpec" where
  "getNoteResponseSpec textDecoder k =
     (if k = 1 then
        MsgField (\<lambda>bs m. case decodeNote textDecoder bs of
                             Inl e \<Rightarrow> Inl e
                           | Inr note \<Rightarrow> Inr (m\<lparr>gnres_note := Some note\<rparr>))
      else UnknownField)"

lemma decodeGetNoteResponse_field_spec:
  "decodeGetNoteResponse_field textDecoder = specStep textDecoder (getNoteResponseSpec textDecoder)"
  by (intro ext) (simp add: decodeGetNoteResponse_field_def specStep_def getNoteResponseSpec_def split: sum.split)

lemma decodeGetNoteResponse_wire:
  assumes "\<forall>f\<in>set fs. okField f \<and> specShape (getNoteResponseSpec textDecoder (fnum f)) f"
  shows "decodeGetNoteResponse textDecoder (wire fs)
         = foldE (\<lambda>f. specAct textDecoder (getNoteResponseSpec textDecoder (fnum f)) f) fs \<lparr>gnres_note = None\<rparr>"
  unfolding decodeGetNoteResponse_def
proof (rule spec_loop_fields [where spec = "getNoteResponseSpec textDecoder" and textDecoder = textDecoder])
  fix r m
  show "decodeGetNoteResponse_loop textDecoder r m =
      (if eof r then Inr m
       else case readTag r of
              Inl e \<Rightarrow> Inl e
            | Inr (tag, r1) \<Rightarrow>
                (case specStep textDecoder (getNoteResponseSpec textDecoder) tag r1 m of
                   Inl e \<Rightarrow> Inl e
                 | Inr (r2, m') \<Rightarrow> decodeGetNoteResponse_loop textDecoder r2 m'))"
    by (subst decodeGetNoteResponse_loop.simps, unfold decodeGetNoteResponse_field_spec, rule refl)
next
  show "\<forall>f\<in>set fs. okField f \<and> specShape (getNoteResponseSpec textDecoder (fnum f)) f"
    by (rule assms)
next
  show "remaining (newReader (wire fs)) = wire fs"
    by (rule remaining_newReader)
qed

definition updateNoteResponseSpec :: "(byte list \<Rightarrow> jsstring) \<Rightarrow> nat \<Rightarrow> UpdateNoteResponse fieldSpec" where
  "updateNoteResponseSpec textDecoder k =
     (if k = 1 then
        MsgField (\<lambda>bs m. case decodeNote textDecoder bs of
                             Inl e \<Rightarrow> Inl e
                           | Inr note \<Rightarrow> Inr (m\<lparr>unres_note := Some note\<rparr>))
      else UnknownField)"

lemma decodeUpdateNoteResponse_field_spec:
  "decodeUpdateNoteResponse_field textDecoder = specStep textDecoder (updateNoteResponseSpec textDecoder)"
  by (intro ext) (simp add: decodeUpdateNoteResponse_field_def specStep_def updateNoteResponseSpec_def split: sum.split)

lemma decodeUpdateNoteResponse_wire:
  assumes "\<forall>f\<in>set fs. okField f \<and> specShape (updateNoteResponseSpec textDecoder (fnum f)) f"
  shows "decodeUpdateNoteResponse textDecoder (wire fs)
         = foldE (\<lambda>f. specAct textDecoder (updateNoteResponseSpec textDecoder (fnum f)) f) fs \<lparr>unres_note = None\<rparr>"
  unfolding decodeUpdateNoteResponse_def
proof (rule spec_loop_fields [where spec = "updateNoteResponseSpec textDecoder" and textDecoder = textDecoder])
  fix r m
  show "decodeUpdateNoteResponse_loop textDecoder r m =
      (if eof r then Inr m
       else case readTag r of
              Inl e \<Rightarrow> Inl e
            | Inr (tag, r1) \<Rightarrow>
                (case specStep textDecoder (updateNoteResponseSpec textDecoder) tag r1 m of
                   Inl e \<Rightarrow> Inl e
                 | Inr (r2, m') \<Rightarrow> decodeUpdateNoteResponse_loop textDecoder r2 m'))"
    by (subst decodeUpdateNoteResponse_loop.simps, unfold decodeUpdateNoteResponse_field_spec, rule refl)
next
  show "\<forall>f\<in>set fs. okField f \<and> specShape (updateNoteResponseSpec textDecoder (fnum f)) f"
    by (rule assms)
next
  show "remaining (newReader (wire fs)) = wire fs"
    by (rule remaining_newReader)
qed

definition listNotesResponseSpec :: "(byte list \<Rightarrow> jsstring) \<Rightarrow> nat \<Rightarrow> ListNotesResponse fieldSpec" where
  "listNotesResponseSpec textDecoder k =
     (if k = 1 then
        MsgField (\<lambda>bs m. case decodeNote textDecoder bs of
                             Inl e \<Rightarrow> Inl e
                           | Inr note \<Rightarrow> Inr (m\<lparr>lnres_notes := lnres_notes m @ [note]\<rparr>))
      else UnknownField)"

lemma decodeListNotesResponse_field_spec:
  "decodeListNotesResponse_field textDecoder = specStep textDecoder (listNotesResponseSpec textDecoder)"
  by (intro ext) (simp add: decodeListNotesResponse_field_def specStep_def listNotesResponseSpec_def split: sum.split)

lemma decodeListNotesResponse_wire:
  assumes "\<forall>f\<in>set fs. okField f \<and> specShape (listNotesResponseSpec textDecoder (fnum f)) f"
  shows "decodeListNotesResponse textDecoder (wire fs)
         = foldE (\<lambda>f. specAct textDecoder (listNotesResponseSpec textDecoder (fnum f)) f) fs \<lparr>lnres_notes = []\<rparr>"
  unfolding decodeListNotesResponse_def
proof (rule spec_loop_fields [where spec = "listNotesResponseSpec textDecoder" and textDecoder = textDecoder])
  fix r m
  show "decodeListNotesResponse_loop textDecoder r m =
      (if eof r then Inr m
       else case readTag r of
              Inl e \<Rightarrow> Inl e
            | Inr (tag, r1) \<Rightarrow>
                (case specStep textDecoder (listNotesResponseSpec textDecoder) tag r1 m of
                   Inl e \<Rightarrow> Inl e
                 | Inr (r2, m') \<Rightarrow> decodeListNotesResponse_loop textDecoder r2 m'))"
    by (subst decodeListNotesResponse_loop.simps, unfold decodeListNotesResponse_field_spec, rule refl)
next
  show "\<forall>f\<in>set fs. okField f \<and> specShape (listNotesResponseSpec textDecoder (fnum f)) f"
    by (rule assms)
next
  show "remaining (newReader (wire fs)) = wire fs"
    by (rule remaining_newReader)
qed

definition updateNoteRequestSpec :: "nat \<Rightarrow> UpdateNoteRequest fieldSpec" where
  "updateNoteRequestSpec k =
     (if k = 1 then StrField (\<lambda>v m. m\<lparr>unreq_title := Some v\<rparr>)
      else if k = 2 then StrField (\<lambda>v m. m\<lparr>unreq_body := Some v\<rparr>)
      else UnknownField)"

lemma decodeUpdateNoteRequest_field_spec:
  "decodeUpdateNoteRequest_field textDecoder = specStep textDecoder (updateNoteRequestSpec)"
  by (intro ext) (simp add: decodeUpdateNoteRequest_field_def specStep_def updateNoteRequestSpec_def split: sum.split)

lemma decodeUpdateNoteRequest_wire:
  assumes "\<forall>f\<in>set fs. okField f \<and> specShape (updateNoteRequestSpec (fnum f)) f"
  shows "decodeUpdateNoteRequest textDecoder (wire fs)
         = foldE (\<lambda>f. specAct textDecoder (updateNoteRequestSpec (fnum f)) f) fs \<lparr>unreq_title = None, unreq_body = None\<rparr>"
  unfolding decodeUpdateNoteRequest_def
proof (rule spec_loop_fields [where spec = "updateNoteRequestSpec" and textDecoder = textDecoder])
  fix r m
  show "decodeUpdateNoteRequest_loop textDecoder r m =
      (if eof r then Inr m
       else case readTag r of
              Inl e \<Rightarrow> Inl e
            | Inr (tag, r1) \<Rightarrow>
                (case specStep textDecoder (updateNoteRequestSpec) tag r1 m of
                   Inl e \<Rightarrow> Inl e
                 | Inr (r2, m') \<Rightarrow> decodeUpdateNoteRequest_loop textDecoder r2 m'))"
    by (subst decodeUpdateNoteRequest_loop.simps, unfold decodeUpdateNoteRequest_field_spec, rule refl)
next
  show "\<forall>f\<in>set fs. okField f \<and> specShape (updateNoteRequestSpec (fnum f)) f"
    by (rule assms)
next
  show "remaining (newReader (wire fs)) = wire fs"
    by (rule remaining_newReader)
qed

definition deleteNoteResponseSpec :: "nat \<Rightarrow> DeleteNoteResponse fieldSpec" where
  "deleteNoteResponseSpec k =
     (if k = 1 then IntField (\<lambda>v m. m\<lparr>dnres_id := v\<rparr>)
      else UnknownField)"

lemma decodeDeleteNoteResponse_field_spec:
  "decodeDeleteNoteResponse_field = specStep textDecoder (deleteNoteResponseSpec)"
  by (intro ext) (simp add: decodeDeleteNoteResponse_field_def specStep_def deleteNoteResponseSpec_def split: sum.split)

lemma decodeDeleteNoteResponse_wire:
  assumes "\<forall>f\<in>set fs. okField f \<and> specShape (deleteNoteResponseSpec (fnum f)) f"
  shows "decodeDeleteNoteResponse (wire fs)
         = foldE (\<lambda>f. specAct textDecoder (deleteNoteResponseSpec (fnum f)) f) fs \<lparr>dnres_id = Finite 0\<rparr>"
  unfolding decodeDeleteNoteResponse_def
proof (rule spec_loop_fields [where spec = "deleteNoteResponseSpec" and textDecoder = textDecoder])
  fix r m
  show "decodeDeleteNoteResponse_loop r m =
      (if eof r then Inr m
       else case readTag r of
              Inl e \<Rightarrow> Inl e
            | Inr (tag, r1) \<Rightarrow>
                (case specStep textDecoder (deleteNoteResponseSpec) tag r1 m of
                   Inl e \<Rightarrow> Inl e
                 | Inr (r2, m') \<Rightarrow> decodeDeleteNoteResponse_loop r2 m'))"
    by (subst decodeDeleteNoteResponse_loop.simps, subst decodeDeleteNoteResponse_field_spec [of textDecoder], rule refl)
next
  show "\<forall>f\<in>set fs. okField f \<and> specShape (deleteNoteResponseSpec (fnum f)) f"
    by (rule assms)
next
  show "remaining (newReader (wire fs)) = wire fs"
    by (rule remaining_newReader)
qed

definition noteDeltaSpec :: "nat \<Rightarrow> NoteDelta fieldSpec" where
  "noteDeltaSpec k =
     (if k = 1 then IntField (\<lambda>v m. m\<lparr>nd_id := v\<rparr>)
      else if k = 2 then StrField (\<lambda>v m. m\<lparr>nd_title := Some v\<rparr>)
      else if k = 3 then StrField (\<lambda>v m. m\<lparr>nd_body := Some v\<rparr>)
      else if k = 4 then IntField (\<lambda>v m. m\<lparr>nd_updated_at_unix_ms := v\<rparr>)
      else if k = 5 then IntField (\<lambda>v m. m\<lparr>nd_version := v\<rparr>)
      else UnknownField)"

lemma decodeNoteDelta_field_spec:
  "decodeNoteDelta_field textDecoder = specStep textDecoder (noteDeltaSpec)"
  by (intro ext) (simp add: decodeNoteDelta_field_def specStep_def noteDeltaSpec_def split: sum.split)

lemma decodeNoteDelta_wire:
  assumes "\<forall>f\<in>set fs. okField f \<and> specShape (noteDeltaSpec (fnum f)) f"
  shows "decodeNoteDelta textDecoder (wire fs)
         = foldE (\<lambda>f. specAct textDecoder (noteDeltaSpec (fnum f)) f) fs noteDeltaDefault"
  unfolding decodeNoteDelta_def noteDeltaDefault_def [symmetric]
proof (rule spec_loop_fields [where spec = "noteDeltaSpec" and textDecoder = textDecoder])
  fix r m
  show "decodeNoteDelta_loop textDecoder r m =
      (if eof r then Inr m
       else case readTag r of
              Inl e \<Rightarrow> Inl e
            | Inr (tag, r1) \<Rightarrow>
                (case specStep textDecoder (noteDeltaSpec) tag r1 m of
                   Inl e \<Rightarrow> Inl e
                 | Inr (r2, m') \<Rightarrow> decodeNoteDelta_loop textDecoder r2 m'))"
    by (subst decodeNoteDelta_loop.simps, unfold decodeNoteDelta_field_spec, rule refl)
next
  show "\<forall>f\<in>set fs. okField f \<and> specShape (noteDeltaSpec (fnum f)) f"
    by (rule assms)
next
  show "remaining (newReader (wire fs)) = wire fs"
    by (rule remaining_newReader)
qed

definition noteDeletedSpec :: "nat \<Rightarrow> NoteDeleted fieldSpec" where
  "noteDeletedSpec k =
     (if k = 1 then IntField (\<lambda>v m. m\<lparr>deleted_id := v\<rparr>)
      else UnknownField)"

lemma decodeNoteDeleted_field_spec:
  "decodeNoteDeleted_field = specStep textDecoder (noteDeletedSpec)"
  by (intro ext) (simp add: decodeNoteDeleted_field_def specStep_def noteDeletedSpec_def split: sum.split)

lemma decodeNoteDeleted_wire:
  assumes "\<forall>f\<in>set fs. okField f \<and> specShape (noteDeletedSpec (fnum f)) f"
  shows "decodeNoteDeleted (wire fs)
         = foldE (\<lambda>f. specAct textDecoder (noteDeletedSpec (fnum f)) f) fs \<lparr>deleted_id = Finite 0\<rparr>"
  unfolding decodeNoteDeleted_def
proof (rule spec_loop_fields [where spec = "noteDeletedSpec" and textDecoder = textDecoder])
  fix r m
  show "decodeNoteDeleted_loop r m =
      (if eof r then Inr m
       else case readTag r of
              Inl e \<Rightarrow> Inl e
            | Inr (tag, r1) \<Rightarrow>
                (case specStep textDecoder (noteDeletedSpec) tag r1 m of
                   Inl e \<Rightarrow> Inl e
                 | Inr (r2, m') \<Rightarrow> decodeNoteDeleted_loop r2 m'))"
    by (subst decodeNoteDeleted_loop.simps, subst decodeNoteDeleted_field_spec [of textDecoder], rule refl)
next
  show "\<forall>f\<in>set fs. okField f \<and> specShape (noteDeletedSpec (fnum f)) f"
    by (rule assms)
next
  show "remaining (newReader (wire fs)) = wire fs"
    by (rule remaining_newReader)
qed

definition noteEventSpec :: "(byte list \<Rightarrow> jsstring) \<Rightarrow> nat \<Rightarrow> NoteEvent fieldSpec" where
  "noteEventSpec textDecoder k =
     (if k = 1 then
        MsgField (\<lambda>bs m. case decodeNote textDecoder bs of
                             Inl e \<Rightarrow> Inl e
                           | Inr note \<Rightarrow> Inr (EventCreated note))
      else if k = 2 then
        MsgField (\<lambda>bs m. case decodeNoteDelta textDecoder bs of
                             Inl e \<Rightarrow> Inl e
                           | Inr delta \<Rightarrow> Inr (EventUpdated delta))
      else if k = 3 then
        MsgField (\<lambda>bs m. case decodeNoteDeleted bs of
                             Inl e \<Rightarrow> Inl e
                           | Inr deleted \<Rightarrow> Inr (EventDeleted deleted))
      else UnknownField)"

lemma decodeNoteEvent_field_spec:
  "decodeNoteEvent_field textDecoder = specStep textDecoder (noteEventSpec textDecoder)"
  by (intro ext) (simp add: decodeNoteEvent_field_def specStep_def noteEventSpec_def split: sum.split)

lemma decodeNoteEvent_wire:
  assumes "\<forall>f\<in>set fs. okField f \<and> specShape (noteEventSpec textDecoder (fnum f)) f"
  shows "decodeNoteEvent textDecoder (wire fs)
         = foldE (\<lambda>f. specAct textDecoder (noteEventSpec textDecoder (fnum f)) f) fs EventUndefined"
  unfolding decodeNoteEvent_def
proof (rule spec_loop_fields [where spec = "noteEventSpec textDecoder" and textDecoder = textDecoder])
  fix r m
  show "decodeNoteEvent_loop textDecoder r m =
      (if eof r then Inr m
       else case readTag r of
              Inl e \<Rightarrow> Inl e
            | Inr (tag, r1) \<Rightarrow>
                (case specStep textDecoder (noteEventSpec textDecoder) tag r1 m of
                   Inl e \<Rightarrow> Inl e
                 | Inr (r2, m') \<Rightarrow> decodeNoteEvent_loop textDecoder r2 m'))"
    by (subst decodeNoteEvent_loop.simps, unfold decodeNoteEvent_field_spec, rule refl)
next
  show "\<forall>f\<in>set fs. okField f \<and> specShape (noteEventSpec textDecoder (fnum f)) f"
    by (rule assms)
next
  show "remaining (newReader (wire fs)) = wire fs"
    by (rule remaining_newReader)
qed




subsection \<open>What the encoders write\<close>

text \<open>
  \<open>validInt64 v\<close>: \<open>v\<close> is a non-negative safe integer, the values \<open>numberToVarint\<close>
  accepts. For each message \<open>xFields\<close> lists the fields its encoder writes, and
  \<open>xThroughText\<close> is the message with every string replaced by what \<open>textDecoder\<close> makes
  of its \<open>textEncoder\<close> bytes.
\<close>

definition validInt64 :: "number \<Rightarrow> bool" where
  "validInt64 v =
     (case v of Finite q \<Rightarrow> 0 \<le> q \<and> q \<le> of_nat MAX_SAFE_INTEGER \<and> of_int \<lfloor>q\<rfloor> = q
      | _ \<Rightarrow> False)"

definition varintOf :: "number \<Rightarrow> nat" where
  "varintOf v = nat (BigInt v)"

lemma numberToVarint_valid: "validInt64 v \<Longrightarrow> numberToVarint v = Inr (varintOf v)"
  by (cases v)
     (auto simp: validInt64_def numberToVarint_def Number_isFinite_def lessThanZero_def
        Number_isSafeInteger_def varintOf_def)

lemma numberToVarint_invalid:
  "\<not> validInt64 v \<Longrightarrow> numberToVarint v = Inl (NotFiniteNonNegative v) \<or> numberToVarint v = Inl (NotSafeInteger v)"
  by (cases v)
     (auto simp: validInt64_def numberToVarint_def Number_isFinite_def lessThanZero_def
        Number_isSafeInteger_def varintOf_def)

lemma validInt64_varintOf:
  assumes "validInt64 v"
  shows "varintOf v \<le> MAX_SAFE_INTEGER" and "Finite (of_nat (varintOf v)) = v"
proof -
  from assms obtain q where v: "v = Finite q" and q: "0 \<le> q" "q \<le> of_nat MAX_SAFE_INTEGER"
    and isint: "of_int \<lfloor>q\<rfloor> = q"
    by (cases v) (auto simp: validInt64_def)
  from q(1) have nn: "0 \<le> \<lfloor>q\<rfloor>" by simp
  then have "of_nat (nat \<lfloor>q\<rfloor>) = (of_int \<lfloor>q\<rfloor> :: rat)" by simp
  with isint have recov: "of_nat (nat \<lfloor>q\<rfloor>) = q" by simp
  with v show "Finite (of_nat (varintOf v)) = v" by (simp add: varintOf_def BigInt_def)
  from recov q(2) have "(of_nat (nat \<lfloor>q\<rfloor>) :: rat) \<le> of_nat MAX_SAFE_INTEGER" by simp
  then have "nat \<lfloor>q\<rfloor> \<le> MAX_SAFE_INTEGER" by (simp only: of_nat_le_iff)
  with v show "varintOf v \<le> MAX_SAFE_INTEGER" by (simp add: varintOf_def BigInt_def)
qed

lemma writeVarint_eq: "writeVarint n w = w\<lparr>bytes := bytes w @ varintBytes n\<rparr>"
proof (induction n w rule: writeVarint.induct)
  case (1 current w)
  show ?case
  proof (cases "current \<ge> 0x80")
    case True
    with 1 show ?thesis
      by (subst writeVarint.simps, subst varintBytes.simps) simp
  next
    case False
    then show ?thesis
      by (subst writeVarint.simps, subst varintBytes.simps) simp
  qed
qed

lemma writeTag_eq: "writeTag k wt w = w\<lparr>bytes := bytes w @ tagBytes k wt\<rparr>"
  by (simp add: writeTag_def writeVarint_eq tagBytes_def)

lemma writeInt64_eq:
  "validInt64 v \<Longrightarrow>
   writeInt64 k v w = Inr (w\<lparr>bytes := bytes w @ fieldBytes (VarintField k (varintOf v))\<rparr>)"
  by (simp add: writeInt64_def writeTag_eq writeVarint_eq numberToVarint_valid fieldBytes_def
      WIRE_VARINT_def)

lemma writeInt64_invalid: "\<not> validInt64 v \<Longrightarrow> \<exists>e. writeInt64 k v w = Inl e"
  using numberToVarint_invalid [of v] by (auto simp: writeInt64_def)

lemma writeString_eq:
  "writeString textEncoder k s w = w\<lparr>bytes := bytes w @ fieldBytes (LenField k (textEncoder s))\<rparr>"
  by (simp add: writeString_def writeTag_eq writeVarint_eq fieldBytes_def Let_def
      WIRE_LENGTH_DELIMITED_def)

lemma writeMessage_eq:
  "writeMessage k p w = w\<lparr>bytes := bytes w @ fieldBytes (LenField k p)\<rparr>"
  by (simp add: writeMessage_def writeTag_eq writeVarint_eq fieldBytes_def Let_def
      WIRE_LENGTH_DELIMITED_def)

lemmas writer_eqs = writeInt64_eq writeString_eq writeMessage_eq newWriter_def finish_def

lemma field_length_le_wire: "f \<in> set fs \<Longrightarrow> length (fieldBytes f) \<le> length (wire fs)"
  by (induction fs) (auto simp: wire_def)

lemma okField_LenField:
  "LenField k bs \<in> set fs \<Longrightarrow> k < 2 ^ 29 \<Longrightarrow> length (wire fs) < 2 ^ 53 \<Longrightarrow> okField (LenField k bs)"
  using field_length_le_wire [of "LenField k bs" fs] by (simp add: fieldBytes_def)

lemma varintOf_less: "validInt64 v \<Longrightarrow> varintOf v < 2 ^ 64"
  using validInt64_varintOf(1) [of v] by (simp add: MAX_SAFE_INTEGER_def)

lemma okField_VarintField:
  "validInt64 v \<Longrightarrow> k < 2 ^ 29 \<Longrightarrow> okField (VarintField k (varintOf v))"
  using validInt64_varintOf(1) [of v] by (simp add: MAX_SAFE_INTEGER_def)


lemma okField_numeral [simp]: "(k::nat) < 7 \<Longrightarrow> k < 2 ^ 29"
  by simp

definition validNote :: "Note \<Rightarrow> bool" where
  "validNote m \<longleftrightarrow>
     validInt64 (note_id m) \<and> validInt64 (note_created_at_unix_ms m)
     \<and> validInt64 (note_updated_at_unix_ms m) \<and> validInt64 (note_version m)"

definition noteFields :: "(jsstring \<Rightarrow> byte list) \<Rightarrow> Note \<Rightarrow> field list" where
  "noteFields textEncoder m =
     [VarintField 1 (varintOf (note_id m)),
      LenField 2 (textEncoder (note_title m)),
      LenField 3 (textEncoder (note_body m)),
      VarintField 4 (varintOf (note_created_at_unix_ms m)),
      VarintField 5 (varintOf (note_updated_at_unix_ms m)),
      VarintField 6 (varintOf (note_version m))]"

definition noteThroughText ::
  "(jsstring \<Rightarrow> byte list) \<Rightarrow> (byte list \<Rightarrow> jsstring) \<Rightarrow> Note \<Rightarrow> Note" where
  "noteThroughText textEncoder textDecoder m =
     m\<lparr>note_title := textDecoder (textEncoder (note_title m)),
       note_body := textDecoder (textEncoder (note_body m))\<rparr>"

lemma encodeNote_wire:
  "validNote m \<Longrightarrow> encodeNote textEncoder m = Inr (wire (noteFields textEncoder m))"
  by (simp add: encodeNote_def writer_eqs validNote_def noteFields_def wire_def Let_def)

lemma writeInt64_Inr_valid: "writeInt64 k v w = Inr w' \<Longrightarrow> validInt64 v"
  using writeInt64_invalid [of v k w] by auto

lemma encodeNote_invalid: "\<not> validNote m \<Longrightarrow> \<exists>e. encodeNote textEncoder m = Inl e"
  unfolding validNote_def encodeNote_def Let_def
  by (auto split: sum.split dest: writeInt64_Inr_valid)

lemma foldE_note_valid:
  assumes "validNote m"
  shows "foldE (\<lambda>f. specAct textDecoder (noteSpec (fnum f)) f) (noteFields textEncoder m) noteDefault
         = Inr (noteThroughText textEncoder textDecoder m)"
proof -
  note v = assms [unfolded validNote_def]
  have le: "\<not> MAX_SAFE_INTEGER < varintOf (note_id m)"
    "\<not> MAX_SAFE_INTEGER < varintOf (note_created_at_unix_ms m)"
    "\<not> MAX_SAFE_INTEGER < varintOf (note_updated_at_unix_ms m)"
    "\<not> MAX_SAFE_INTEGER < varintOf (note_version m)"
    using v validInt64_varintOf(1) by (simp_all add: not_less)
  show ?thesis
    using v
    by (simp add: noteFields_def noteSpec_def le validInt64_varintOf(2) noteDefault_def
        noteThroughText_def)
qed

lemma noteFields_ok:
  assumes "validNote m" and "length (wire (noteFields textEncoder m)) < 2 ^ 53"
  shows "\<forall>f\<in>set (noteFields textEncoder m). okField f \<and> specShape (noteSpec (fnum f)) f"
proof -
  have len: "LenField k bs \<in> set (noteFields textEncoder m) \<Longrightarrow> length bs < 2 ^ 53" for k bs
    using field_length_le_wire [of "LenField k bs" "noteFields textEncoder m"] assms(2)
    by (simp add: fieldBytes_def)
  have "length (textEncoder (note_title m)) < 2 ^ 53"
    by (rule len [of 2]) (simp add: noteFields_def)
  moreover have "length (textEncoder (note_body m)) < 2 ^ 53"
    by (rule len [of 3]) (simp add: noteFields_def)
  moreover note v = assms(1) [unfolded validNote_def]
  ultimately show ?thesis
    using v by (simp add: noteFields_def noteSpec_def varintOf_less [simplified])
qed

lemma decodeNote_encoded:
  assumes "validNote m" and "length (wire (noteFields textEncoder m)) < 2 ^ 53"
  shows "decodeNote textDecoder (wire (noteFields textEncoder m))
         = Inr (noteThroughText textEncoder textDecoder m)"
  using decodeNote_wire [OF noteFields_ok [OF assms]] foldE_note_valid [OF assms(1)] by simp


lemma fields_ok:
  assumes len: "length (wire fs) < 2 ^ 53"
    and num: "\<forall>f\<in>set fs. fnum f < 2 ^ 29 \<and> (\<forall>k v. f = VarintField k v \<longrightarrow> v < 2 ^ 64)"
  shows "\<forall>f\<in>set fs. okField f"
proof
  fix f assume f: "f \<in> set fs"
  show "okField f"
  proof (cases f)
    case (VarintField k v)
    with num f show ?thesis by auto
  next
    case (LenField k bs)
    have "length (fieldBytes f) \<le> length (wire fs)"
      using f by (rule field_length_le_wire)
    with len LenField have "length bs < 2 ^ 53" by (simp add: fieldBytes_def)
    with num f LenField show ?thesis by auto
  qed
qed


subsection \<open>CreateNoteRequest\<close>

definition createNoteRequestFields ::
  "(jsstring \<Rightarrow> byte list) \<Rightarrow> CreateNoteRequest \<Rightarrow> field list" where
  "createNoteRequestFields textEncoder m =
     [LenField 1 (textEncoder (cnreq_title m)), LenField 2 (textEncoder (cnreq_body m))]"

definition createNoteRequestThroughText ::
  "(jsstring \<Rightarrow> byte list) \<Rightarrow> (byte list \<Rightarrow> jsstring) \<Rightarrow> CreateNoteRequest \<Rightarrow> CreateNoteRequest" where
  "createNoteRequestThroughText textEncoder textDecoder m =
     m\<lparr>cnreq_title := textDecoder (textEncoder (cnreq_title m)),
       cnreq_body := textDecoder (textEncoder (cnreq_body m))\<rparr>"

lemma encodeCreateNoteRequest_wire:
  "encodeCreateNoteRequest textEncoder m = Inr (wire (createNoteRequestFields textEncoder m))"
  by (simp add: encodeCreateNoteRequest_def writer_eqs createNoteRequestFields_def wire_def Let_def)


subsection \<open>UpdateNoteRequest\<close>

definition optField :: "nat \<Rightarrow> byte list option \<Rightarrow> field list" where
  "optField k v = (case v of None \<Rightarrow> [] | Some bs \<Rightarrow> [LenField k bs])"

definition updateNoteRequestFields ::
  "(jsstring \<Rightarrow> byte list) \<Rightarrow> UpdateNoteRequest \<Rightarrow> field list" where
  "updateNoteRequestFields textEncoder m =
     optField 1 (map_option textEncoder (unreq_title m))
     @ optField 2 (map_option textEncoder (unreq_body m))"

definition updateNoteRequestThroughText ::
  "(jsstring \<Rightarrow> byte list) \<Rightarrow> (byte list \<Rightarrow> jsstring) \<Rightarrow> UpdateNoteRequest \<Rightarrow> UpdateNoteRequest" where
  "updateNoteRequestThroughText textEncoder textDecoder m =
     m\<lparr>unreq_title := map_option (\<lambda>s. textDecoder (textEncoder s)) (unreq_title m),
       unreq_body := map_option (\<lambda>s. textDecoder (textEncoder s)) (unreq_body m)\<rparr>"

lemma encodeUpdateNoteRequest_wire:
  "encodeUpdateNoteRequest textEncoder m = Inr (wire (updateNoteRequestFields textEncoder m))"
  by (simp add: encodeUpdateNoteRequest_def writer_eqs updateNoteRequestFields_def wire_def
      optField_def Let_def split: option.split)


subsection \<open>DeleteNoteResponse and NoteDeleted\<close>

definition deleteNoteResponseFields :: "DeleteNoteResponse \<Rightarrow> field list" where
  "deleteNoteResponseFields m = [VarintField 1 (varintOf (dnres_id m))]"

lemma encodeDeleteNoteResponse_wire:
  "validInt64 (dnres_id m) \<Longrightarrow> encodeDeleteNoteResponse m = Inr (wire (deleteNoteResponseFields m))"
  by (simp add: encodeDeleteNoteResponse_def writer_eqs deleteNoteResponseFields_def wire_def)

lemma encodeDeleteNoteResponse_invalid:
  "\<not> validInt64 (dnres_id m) \<Longrightarrow> \<exists>e. encodeDeleteNoteResponse m = Inl e"
  unfolding encodeDeleteNoteResponse_def
  by (auto split: sum.split dest: writeInt64_Inr_valid)


definition noteDeletedFields :: "NoteDeleted \<Rightarrow> field list" where
  "noteDeletedFields m = [VarintField 1 (varintOf (deleted_id m))]"

lemma encodeNoteDeleted_wire:
  "validInt64 (deleted_id m) \<Longrightarrow> encodeNoteDeleted m = Inr (wire (noteDeletedFields m))"
  by (simp add: encodeNoteDeleted_def writer_eqs noteDeletedFields_def wire_def)

lemma encodeNoteDeleted_invalid:
  "\<not> validInt64 (deleted_id m) \<Longrightarrow> \<exists>e. encodeNoteDeleted m = Inl e"
  unfolding encodeNoteDeleted_def
  by (auto split: sum.split dest: writeInt64_Inr_valid)

lemma decodeNoteDeleted_encoded:
  assumes "validInt64 (deleted_id m)"
  shows "decodeNoteDeleted (wire (noteDeletedFields m)) = Inr m"
proof -
  have "\<forall>f\<in>set (noteDeletedFields m). okField f \<and> specShape (noteDeletedSpec (fnum f)) f"
    using assms
    by (simp add: noteDeletedFields_def noteDeletedSpec_def varintOf_less [simplified])
  from decodeNoteDeleted_wire [OF this] assms validInt64_varintOf [OF assms]
  show ?thesis
    by (simp add: noteDeletedFields_def noteDeletedSpec_def not_less [symmetric])
qed


subsection \<open>NoteDelta\<close>

definition validNoteDelta :: "NoteDelta \<Rightarrow> bool" where
  "validNoteDelta m \<longleftrightarrow>
     validInt64 (nd_id m) \<and> validInt64 (nd_updated_at_unix_ms m) \<and> validInt64 (nd_version m)"

definition noteDeltaFields :: "(jsstring \<Rightarrow> byte list) \<Rightarrow> NoteDelta \<Rightarrow> field list" where
  "noteDeltaFields textEncoder m =
     VarintField 1 (varintOf (nd_id m))
     # optField 2 (map_option textEncoder (nd_title m))
     @ optField 3 (map_option textEncoder (nd_body m))
     @ [VarintField 4 (varintOf (nd_updated_at_unix_ms m)),
        VarintField 5 (varintOf (nd_version m))]"

definition noteDeltaThroughText ::
  "(jsstring \<Rightarrow> byte list) \<Rightarrow> (byte list \<Rightarrow> jsstring) \<Rightarrow> NoteDelta \<Rightarrow> NoteDelta" where
  "noteDeltaThroughText textEncoder textDecoder m =
     m\<lparr>nd_title := map_option (\<lambda>s. textDecoder (textEncoder s)) (nd_title m),
       nd_body := map_option (\<lambda>s. textDecoder (textEncoder s)) (nd_body m)\<rparr>"

lemma encodeNoteDelta_wire:
  "validNoteDelta m \<Longrightarrow> encodeNoteDelta textEncoder m = Inr (wire (noteDeltaFields textEncoder m))"
  by (simp add: encodeNoteDelta_def writer_eqs validNoteDelta_def noteDeltaFields_def wire_def
      optField_def Let_def split: option.split)

lemma encodeNoteDelta_invalid:
  "\<not> validNoteDelta m \<Longrightarrow> \<exists>e. encodeNoteDelta textEncoder m = Inl e"
  unfolding validNoteDelta_def encodeNoteDelta_def Let_def
  by (auto split: sum.split dest: writeInt64_Inr_valid)

lemma decodeNoteDelta_encoded:
  assumes "validNoteDelta m" and "length (wire (noteDeltaFields textEncoder m)) < 2 ^ 53"
  shows "decodeNoteDelta textDecoder (wire (noteDeltaFields textEncoder m))
         = Inr (noteDeltaThroughText textEncoder textDecoder m)"
proof -
  note v = assms(1) [unfolded validNoteDelta_def]
  have le: "\<not> MAX_SAFE_INTEGER < varintOf (nd_id m)"
    "\<not> MAX_SAFE_INTEGER < varintOf (nd_updated_at_unix_ms m)"
    "\<not> MAX_SAFE_INTEGER < varintOf (nd_version m)"
    using v validInt64_varintOf(1) by (simp_all add: not_less)
  have "\<forall>f\<in>set (noteDeltaFields textEncoder m). okField f"
    using assms(2)
    by (rule fields_ok)
       (use v in \<open>auto simp: noteDeltaFields_def optField_def varintOf_less [simplified]
          split: option.splits\<close>)
  then have "\<forall>f\<in>set (noteDeltaFields textEncoder m).
               okField f \<and> specShape (noteDeltaSpec (fnum f)) f"
    by (auto simp: noteDeltaFields_def noteDeltaSpec_def optField_def split: option.splits)
  from decodeNoteDelta_wire [OF this] v show ?thesis
    by (cases "nd_title m"; cases "nd_body m")
       (simp_all add: noteDeltaFields_def noteDeltaSpec_def optField_def le
        validInt64_varintOf(2) noteDeltaDefault_def noteDeltaThroughText_def)
qed


subsection \<open>Responses that carry an optional note\<close>

definition optNoteFields :: "(jsstring \<Rightarrow> byte list) \<Rightarrow> Note option \<Rightarrow> field list" where
  "optNoteFields textEncoder v =
     optField 1 (map_option (\<lambda>note. wire (noteFields textEncoder note)) v)"

definition validOptNote :: "Note option \<Rightarrow> bool" where
  "validOptNote v = (case v of None \<Rightarrow> True | Some note \<Rightarrow> validNote note)"



lemma encodeCreateNoteResponse_wire:
  "validOptNote (cnres_note m)
   \<Longrightarrow> encodeCreateNoteResponse textEncoder m = Inr (wire (optNoteFields textEncoder (cnres_note m)))"
  by (cases "cnres_note m")
     (simp_all add: encodeCreateNoteResponse_def validOptNote_def encodeNote_wire writer_eqs
        optNoteFields_def optField_def wire_def)

lemma encodeCreateNoteResponse_invalid:
  "\<not> validOptNote (cnres_note m) \<Longrightarrow> \<exists>e. encodeCreateNoteResponse textEncoder m = Inl e"
proof (cases "cnres_note m")
  case None
  moreover assume "\<not> validOptNote (cnres_note m)"
  ultimately show ?thesis by (simp add: validOptNote_def)
next
  case (Some n0)
  moreover assume "\<not> validOptNote (cnres_note m)"
  ultimately have "\<not> validNote n0" by (simp add: validOptNote_def)
  then obtain e where "encodeNote textEncoder n0 = Inl e"
    using encodeNote_invalid by blast
  with Some show ?thesis by (simp add: encodeCreateNoteResponse_def)
qed


lemma encodeGetNoteResponse_wire:
  "validOptNote (gnres_note m)
   \<Longrightarrow> encodeGetNoteResponse textEncoder m = Inr (wire (optNoteFields textEncoder (gnres_note m)))"
  by (cases "gnres_note m")
     (simp_all add: encodeGetNoteResponse_def validOptNote_def encodeNote_wire writer_eqs
        optNoteFields_def optField_def wire_def)

lemma encodeGetNoteResponse_invalid:
  "\<not> validOptNote (gnres_note m) \<Longrightarrow> \<exists>e. encodeGetNoteResponse textEncoder m = Inl e"
proof (cases "gnres_note m")
  case None
  moreover assume "\<not> validOptNote (gnres_note m)"
  ultimately show ?thesis by (simp add: validOptNote_def)
next
  case (Some n0)
  moreover assume "\<not> validOptNote (gnres_note m)"
  ultimately have "\<not> validNote n0" by (simp add: validOptNote_def)
  then obtain e where "encodeNote textEncoder n0 = Inl e"
    using encodeNote_invalid by blast
  with Some show ?thesis by (simp add: encodeGetNoteResponse_def)
qed


lemma encodeUpdateNoteResponse_wire:
  "validOptNote (unres_note m)
   \<Longrightarrow> encodeUpdateNoteResponse textEncoder m = Inr (wire (optNoteFields textEncoder (unres_note m)))"
  by (cases "unres_note m")
     (simp_all add: encodeUpdateNoteResponse_def validOptNote_def encodeNote_wire writer_eqs
        optNoteFields_def optField_def wire_def)

lemma encodeUpdateNoteResponse_invalid:
  "\<not> validOptNote (unres_note m) \<Longrightarrow> \<exists>e. encodeUpdateNoteResponse textEncoder m = Inl e"
proof (cases "unres_note m")
  case None
  moreover assume "\<not> validOptNote (unres_note m)"
  ultimately show ?thesis by (simp add: validOptNote_def)
next
  case (Some n0)
  moreover assume "\<not> validOptNote (unres_note m)"
  ultimately have "\<not> validNote n0" by (simp add: validOptNote_def)
  then obtain e where "encodeNote textEncoder n0 = Inl e"
    using encodeNote_invalid by blast
  with Some show ?thesis by (simp add: encodeUpdateNoteResponse_def)
qed



subsection \<open>ListNotesResponse\<close>

definition listNotesResponseFields ::
  "(jsstring \<Rightarrow> byte list) \<Rightarrow> ListNotesResponse \<Rightarrow> field list" where
  "listNotesResponseFields textEncoder m =
     map (\<lambda>n. LenField 1 (wire (noteFields textEncoder n))) (lnres_notes m)"

lemma encodeListNotesResponse_loop_eq:
  "list_all validNote ns \<Longrightarrow>
   encodeListNotesResponse_loop textEncoder ns w
   = Inr (w\<lparr>bytes := bytes w @ wire (map (\<lambda>n. LenField 1 (wire (noteFields textEncoder n))) ns)\<rparr>)"
proof (induction ns arbitrary: w)
  case Nil
  then show ?case by (simp add: wire_def)
next
  case (Cons n ns)
  then show ?case by (simp add: encodeNote_wire writer_eqs wire_def)
qed

lemma encodeListNotesResponse_loop_invalid:
  "\<not> list_all validNote ns \<Longrightarrow> \<exists>e. encodeListNotesResponse_loop textEncoder ns w = Inl e"
proof (induction ns arbitrary: w)
  case Nil
  then show ?case by simp
next
  case (Cons n ns)
  show ?case
  proof (cases "validNote n")
    case True
    with Cons show ?thesis by (simp add: encodeNote_wire)
  next
    case False
    then obtain e where "encodeNote textEncoder n = Inl e"
      using encodeNote_invalid by blast
    then show ?thesis by simp
  qed
qed

lemma encodeListNotesResponse_wire:
  "list_all validNote (lnres_notes m)
   \<Longrightarrow> encodeListNotesResponse textEncoder m = Inr (wire (listNotesResponseFields textEncoder m))"
  by (simp add: encodeListNotesResponse_def encodeListNotesResponse_loop_eq newWriter_def
      finish_def listNotesResponseFields_def)

lemma encodeListNotesResponse_invalid:
  "\<not> list_all validNote (lnres_notes m) \<Longrightarrow> \<exists>e. encodeListNotesResponse textEncoder m = Inl e"
  using encodeListNotesResponse_loop_invalid [of "lnres_notes m" textEncoder newWriter]
  by (auto simp: encodeListNotesResponse_def)

lemma foldE_listNotes:
  assumes "list_all validNote ns"
    and "\<forall>n\<in>set ns. length (wire (noteFields textEncoder n)) < 2 ^ 53"
  shows "foldE (\<lambda>f. specAct textDecoder (listNotesResponseSpec textDecoder (fnum f)) f)
           (map (\<lambda>n. LenField 1 (wire (noteFields textEncoder n))) ns) m
         = Inr (m\<lparr>lnres_notes := lnres_notes m @ map (noteThroughText textEncoder textDecoder) ns\<rparr>)"
  using assms
proof (induction ns arbitrary: m)
  case Nil
  then show ?case by simp
next
  case (Cons n ns)
  from Cons.prems have "validNote n" "length (wire (noteFields textEncoder n)) < 2 ^ 53"
    by simp_all
  then have "decodeNote textDecoder (wire (noteFields textEncoder n))
             = Inr (noteThroughText textEncoder textDecoder n)"
    by (rule decodeNote_encoded)
  moreover have "list_all validNote ns"
    "\<forall>n\<in>set ns. length (wire (noteFields textEncoder n)) < 2 ^ 53"
    using Cons.prems by simp_all
  ultimately show ?case
    using Cons.IH by (simp add: listNotesResponseSpec_def)
qed


subsection \<open>NoteEvent\<close>

definition validNoteEvent :: "NoteEvent \<Rightarrow> bool" where
  "validNoteEvent ev =
     (case ev of
        EventCreated n \<Rightarrow> validNote n
      | EventUpdated d \<Rightarrow> validNoteDelta d
      | EventDeleted x \<Rightarrow> validInt64 (deleted_id x)
      | EventUndefined \<Rightarrow> True)"

definition noteEventFields :: "(jsstring \<Rightarrow> byte list) \<Rightarrow> NoteEvent \<Rightarrow> field list" where
  "noteEventFields textEncoder ev =
     (case ev of
        EventCreated n \<Rightarrow> [LenField 1 (wire (noteFields textEncoder n))]
      | EventUpdated d \<Rightarrow> [LenField 2 (wire (noteDeltaFields textEncoder d))]
      | EventDeleted x \<Rightarrow> [LenField 3 (wire (noteDeletedFields x))]
      | EventUndefined \<Rightarrow> [])"

definition noteEventThroughText ::
  "(jsstring \<Rightarrow> byte list) \<Rightarrow> (byte list \<Rightarrow> jsstring) \<Rightarrow> NoteEvent \<Rightarrow> NoteEvent" where
  "noteEventThroughText textEncoder textDecoder ev =
     (case ev of
        EventCreated n \<Rightarrow> EventCreated (noteThroughText textEncoder textDecoder n)
      | EventUpdated d \<Rightarrow> EventUpdated (noteDeltaThroughText textEncoder textDecoder d)
      | EventDeleted x \<Rightarrow> EventDeleted x
      | EventUndefined \<Rightarrow> EventUndefined)"

lemma encodeNoteEvent_wire:
  "validNoteEvent ev
   \<Longrightarrow> encodeNoteEvent textEncoder ev = Inr (wire (noteEventFields textEncoder ev))"
  by (cases ev)
     (simp_all add: encodeNoteEvent_def validNoteEvent_def noteEventFields_def encodeNote_wire
        encodeNoteDelta_wire encodeNoteDeleted_wire writer_eqs wire_def)

lemma encodeNoteEvent_invalid:
  assumes "\<not> validNoteEvent ev"
  shows "\<exists>e. encodeNoteEvent textEncoder ev = Inl e"
proof (cases ev)
  case (EventCreated n)
  with assms obtain e where "encodeNote textEncoder n = Inl e"
    using encodeNote_invalid [of n textEncoder] by (auto simp: validNoteEvent_def)
  with EventCreated show ?thesis by (simp add: encodeNoteEvent_def)
next
  case (EventUpdated d)
  with assms obtain e where "encodeNoteDelta textEncoder d = Inl e"
    using encodeNoteDelta_invalid [of d textEncoder] by (auto simp: validNoteEvent_def)
  with EventUpdated show ?thesis by (simp add: encodeNoteEvent_def)
next
  case (EventDeleted x)
  with assms obtain e where "encodeNoteDeleted x = Inl e"
    using encodeNoteDeleted_invalid [of x] by (auto simp: validNoteEvent_def)
  with EventDeleted show ?thesis by (simp add: encodeNoteEvent_def)
next
  case EventUndefined
  with assms show ?thesis by (simp add: validNoteEvent_def)
qed





subsection \<open>Decoding with fields of unknown numbers in between\<close>

lemma foldE_skip:
  assumes "\<And>f m. f \<in> set fs \<Longrightarrow> act f m = Inr m"
  shows "foldE act fs m = Inr m"
  using assms by (induction fs) auto

lemma injected_generic:
  fixes decode :: "byte list \<Rightarrow> error + 'm"
  assumes wire: "\<And>fs. \<forall>f\<in>set fs. okField f \<and> specShape (spec (fnum f)) f
              \<Longrightarrow> decode (wire fs) = foldE (\<lambda>f. specAct textDecoder (spec (fnum f)) f) fs d"
    and known: "\<And>k. spec k \<noteq> UnknownField \<longleftrightarrow> k \<in> K"
    and shape: "\<And>f. f \<in> set kfs \<Longrightarrow> specShape (spec (fnum f)) f"
    and ok: "\<forall>f\<in>set fs. okField f"
    and filt: "filter (\<lambda>f. fnum f \<in> K) fs = kfs"
  shows "decode (wire fs) = foldE (\<lambda>f. specAct textDecoder (spec (fnum f)) f) kfs d"
proof -
  let ?A = "\<lambda>f. specAct textDecoder (spec (fnum f)) f"
  have "\<forall>f\<in>set fs. okField f \<and> specShape (spec (fnum f)) f"
  proof
    fix f assume f: "f \<in> set fs"
    show "okField f \<and> specShape (spec (fnum f)) f"
    proof (cases "fnum f \<in> K")
      case True
      with f filt have "f \<in> set kfs" by auto
      with ok f show ?thesis by (simp add: shape)
    next
      case False
      then have "spec (fnum f) = UnknownField" using known by blast
      with ok f show ?thesis by simp
    qed
  qed
  then have "decode (wire fs) = foldE ?A fs d" by (rule wire)
  also have "\<dots> = foldE ?A (filter (\<lambda>f. fnum f \<in> K) fs) d"
  proof (rule foldE_filter [symmetric])
    fix f m assume "f \<in> set fs" "fnum f \<notin> K"
    then have "spec (fnum f) = UnknownField" using known by blast
    then show "?A f m = Inr m" by simp
  qed
  finally show ?thesis by (simp add: filt)
qed


lemma noteSpec_known: "noteSpec k \<noteq> UnknownField \<longleftrightarrow> k \<in> {1, 2, 3, 4, 5, 6}"
  by (simp add: noteSpec_def)

lemma noteFields_shape:
  "f \<in> set (noteFields textEncoder m) \<Longrightarrow> specShape (noteSpec (fnum f)) f \<and> fnum f \<in> {1, 2, 3, 4, 5, 6}"
  by (auto simp: noteFields_def noteSpec_def optField_def split: option.splits)

lemma foldE_note:
  assumes v: "validNote m"
    and ok: "\<forall>f\<in>set (noteFields textEncoder m). okField f"
  shows "foldE (\<lambda>f. specAct textDecoder (noteSpec (fnum f)) f) (noteFields textEncoder m) noteDefault
         = Inr (noteThroughText textEncoder textDecoder m)"
  using foldE_note_valid [OF v] .

lemma decodeNote_injected:
  assumes v: "validNote m"
    and ok: "\<forall>f\<in>set fs. okField f"
    and filt: "filter (\<lambda>f. fnum f \<in> {1, 2, 3, 4, 5, 6}) fs = noteFields textEncoder m"
  shows "decodeNote textDecoder (wire fs) = Inr (noteThroughText textEncoder textDecoder m)"
proof -
  have "decodeNote textDecoder (wire fs)
        = foldE (\<lambda>f. specAct textDecoder (noteSpec (fnum f)) f) (noteFields textEncoder m) noteDefault"
    by (rule injected_generic [OF decodeNote_wire noteSpec_known noteFields_shape [THEN conjunct1] ok filt])
  moreover have "\<forall>f\<in>set (noteFields textEncoder m). okField f"
    using ok filt by (metis filter_is_subset subsetD)
  ultimately show ?thesis
    using foldE_note v by simp
qed

lemma createNoteRequestSpec_known: "createNoteRequestSpec k \<noteq> UnknownField \<longleftrightarrow> k \<in> {1, 2}"
  by (simp add: createNoteRequestSpec_def)

lemma createNoteRequestFields_shape:
  "f \<in> set (createNoteRequestFields textEncoder m) \<Longrightarrow> specShape (createNoteRequestSpec (fnum f)) f \<and> fnum f \<in> {1, 2}"
  by (auto simp: createNoteRequestFields_def createNoteRequestSpec_def optField_def split: option.splits)

lemma foldE_createNoteRequest:
  assumes ok: "\<forall>f\<in>set (createNoteRequestFields textEncoder m). okField f"
  shows "foldE (\<lambda>f. specAct textDecoder (createNoteRequestSpec (fnum f)) f) (createNoteRequestFields textEncoder m) \<lparr>cnreq_title = [], cnreq_body = []\<rparr>
         = Inr (createNoteRequestThroughText textEncoder textDecoder m)"
  by (simp add: createNoteRequestFields_def createNoteRequestSpec_def
        createNoteRequestThroughText_def)

lemma decodeCreateNoteRequest_injected:
  assumes ok: "\<forall>f\<in>set fs. okField f"
    and filt: "filter (\<lambda>f. fnum f \<in> {1, 2}) fs = createNoteRequestFields textEncoder m"
  shows "decodeCreateNoteRequest textDecoder (wire fs) = Inr (createNoteRequestThroughText textEncoder textDecoder m)"
proof -
  have "decodeCreateNoteRequest textDecoder (wire fs)
        = foldE (\<lambda>f. specAct textDecoder (createNoteRequestSpec (fnum f)) f) (createNoteRequestFields textEncoder m) \<lparr>cnreq_title = [], cnreq_body = []\<rparr>"
    by (rule injected_generic [OF decodeCreateNoteRequest_wire createNoteRequestSpec_known createNoteRequestFields_shape [THEN conjunct1] ok filt])
  moreover have "\<forall>f\<in>set (createNoteRequestFields textEncoder m). okField f"
    using ok filt by (metis filter_is_subset subsetD)
  ultimately show ?thesis
    using foldE_createNoteRequest by simp
qed

lemma updateNoteRequestSpec_known: "updateNoteRequestSpec k \<noteq> UnknownField \<longleftrightarrow> k \<in> {1, 2}"
  by (simp add: updateNoteRequestSpec_def)

lemma updateNoteRequestFields_shape:
  "f \<in> set (updateNoteRequestFields textEncoder m) \<Longrightarrow> specShape (updateNoteRequestSpec (fnum f)) f \<and> fnum f \<in> {1, 2}"
  by (auto simp: updateNoteRequestFields_def updateNoteRequestSpec_def optField_def split: option.splits)

lemma foldE_updateNoteRequest:
  assumes ok: "\<forall>f\<in>set (updateNoteRequestFields textEncoder m). okField f"
  shows "foldE (\<lambda>f. specAct textDecoder (updateNoteRequestSpec (fnum f)) f) (updateNoteRequestFields textEncoder m) \<lparr>unreq_title = None, unreq_body = None\<rparr>
         = Inr (updateNoteRequestThroughText textEncoder textDecoder m)"
  by (cases "unreq_title m"; cases "unreq_body m")
     (simp_all add: updateNoteRequestFields_def updateNoteRequestSpec_def optField_def
        updateNoteRequestThroughText_def)

lemma decodeUpdateNoteRequest_injected:
  assumes ok: "\<forall>f\<in>set fs. okField f"
    and filt: "filter (\<lambda>f. fnum f \<in> {1, 2}) fs = updateNoteRequestFields textEncoder m"
  shows "decodeUpdateNoteRequest textDecoder (wire fs) = Inr (updateNoteRequestThroughText textEncoder textDecoder m)"
proof -
  have "decodeUpdateNoteRequest textDecoder (wire fs)
        = foldE (\<lambda>f. specAct textDecoder (updateNoteRequestSpec (fnum f)) f) (updateNoteRequestFields textEncoder m) \<lparr>unreq_title = None, unreq_body = None\<rparr>"
    by (rule injected_generic [OF decodeUpdateNoteRequest_wire updateNoteRequestSpec_known updateNoteRequestFields_shape [THEN conjunct1] ok filt])
  moreover have "\<forall>f\<in>set (updateNoteRequestFields textEncoder m). okField f"
    using ok filt by (metis filter_is_subset subsetD)
  ultimately show ?thesis
    using foldE_updateNoteRequest by simp
qed

lemma deleteNoteResponseSpec_known: "deleteNoteResponseSpec k \<noteq> UnknownField \<longleftrightarrow> k \<in> {1}"
  by (simp add: deleteNoteResponseSpec_def)

lemma deleteNoteResponseFields_shape:
  "f \<in> set (deleteNoteResponseFields m) \<Longrightarrow> specShape (deleteNoteResponseSpec (fnum f)) f \<and> fnum f \<in> {1}"
  by (auto simp: deleteNoteResponseFields_def deleteNoteResponseSpec_def optField_def split: option.splits)

lemma foldE_deleteNoteResponse:
  assumes v: "validInt64 (dnres_id m)"
    and ok: "\<forall>f\<in>set (deleteNoteResponseFields m). okField f"
  shows "foldE (\<lambda>f. specAct textDecoder (deleteNoteResponseSpec (fnum f)) f) (deleteNoteResponseFields m) \<lparr>dnres_id = Finite 0\<rparr>
         = Inr (m)"
  using v validInt64_varintOf [OF v]
  by (simp add: deleteNoteResponseFields_def deleteNoteResponseSpec_def not_less [symmetric])

lemma decodeDeleteNoteResponse_injected:
  assumes v: "validInt64 (dnres_id m)"
    and ok: "\<forall>f\<in>set fs. okField f"
    and filt: "filter (\<lambda>f. fnum f \<in> {1}) fs = deleteNoteResponseFields m"
  shows "decodeDeleteNoteResponse (wire fs) = Inr (m)"
proof -
  have "decodeDeleteNoteResponse (wire fs)
        = foldE (\<lambda>f. specAct textDecoder (deleteNoteResponseSpec (fnum f)) f) (deleteNoteResponseFields m) \<lparr>dnres_id = Finite 0\<rparr>"
    by (rule injected_generic [OF decodeDeleteNoteResponse_wire deleteNoteResponseSpec_known deleteNoteResponseFields_shape [THEN conjunct1] ok filt])
  moreover have "\<forall>f\<in>set (deleteNoteResponseFields m). okField f"
    using ok filt by (metis filter_is_subset subsetD)
  ultimately show ?thesis
    using foldE_deleteNoteResponse v by simp
qed

lemma noteDeletedSpec_known: "noteDeletedSpec k \<noteq> UnknownField \<longleftrightarrow> k \<in> {1}"
  by (simp add: noteDeletedSpec_def)

lemma noteDeletedFields_shape:
  "f \<in> set (noteDeletedFields m) \<Longrightarrow> specShape (noteDeletedSpec (fnum f)) f \<and> fnum f \<in> {1}"
  by (auto simp: noteDeletedFields_def noteDeletedSpec_def optField_def split: option.splits)

lemma foldE_noteDeleted:
  assumes v: "validInt64 (deleted_id m)"
    and ok: "\<forall>f\<in>set (noteDeletedFields m). okField f"
  shows "foldE (\<lambda>f. specAct textDecoder (noteDeletedSpec (fnum f)) f) (noteDeletedFields m) \<lparr>deleted_id = Finite 0\<rparr>
         = Inr (m)"
  using v validInt64_varintOf [OF v]
  by (simp add: noteDeletedFields_def noteDeletedSpec_def not_less [symmetric])

lemma decodeNoteDeleted_injected:
  assumes v: "validInt64 (deleted_id m)"
    and ok: "\<forall>f\<in>set fs. okField f"
    and filt: "filter (\<lambda>f. fnum f \<in> {1}) fs = noteDeletedFields m"
  shows "decodeNoteDeleted (wire fs) = Inr (m)"
proof -
  have "decodeNoteDeleted (wire fs)
        = foldE (\<lambda>f. specAct textDecoder (noteDeletedSpec (fnum f)) f) (noteDeletedFields m) \<lparr>deleted_id = Finite 0\<rparr>"
    by (rule injected_generic [OF decodeNoteDeleted_wire noteDeletedSpec_known noteDeletedFields_shape [THEN conjunct1] ok filt])
  moreover have "\<forall>f\<in>set (noteDeletedFields m). okField f"
    using ok filt by (metis filter_is_subset subsetD)
  ultimately show ?thesis
    using foldE_noteDeleted v by simp
qed

lemma noteDeltaSpec_known: "noteDeltaSpec k \<noteq> UnknownField \<longleftrightarrow> k \<in> {1, 2, 3, 4, 5}"
  by (simp add: noteDeltaSpec_def)

lemma noteDeltaFields_shape:
  "f \<in> set (noteDeltaFields textEncoder m) \<Longrightarrow> specShape (noteDeltaSpec (fnum f)) f \<and> fnum f \<in> {1, 2, 3, 4, 5}"
  by (auto simp: noteDeltaFields_def noteDeltaSpec_def optField_def split: option.splits)

lemma foldE_noteDelta:
  assumes v: "validNoteDelta m"
    and ok: "\<forall>f\<in>set (noteDeltaFields textEncoder m). okField f"
  shows "foldE (\<lambda>f. specAct textDecoder (noteDeltaSpec (fnum f)) f) (noteDeltaFields textEncoder m) noteDeltaDefault
         = Inr (noteDeltaThroughText textEncoder textDecoder m)"
proof -
  note v' = v [unfolded validNoteDelta_def]
  have le: "\<not> MAX_SAFE_INTEGER < varintOf (nd_id m)"
    "\<not> MAX_SAFE_INTEGER < varintOf (nd_updated_at_unix_ms m)"
    "\<not> MAX_SAFE_INTEGER < varintOf (nd_version m)"
    using v' validInt64_varintOf(1) by (simp_all add: not_less)
  from v' show ?thesis
    by (cases "nd_title m"; cases "nd_body m")
       (simp_all add: noteDeltaFields_def noteDeltaSpec_def optField_def le
        validInt64_varintOf(2) noteDeltaDefault_def noteDeltaThroughText_def)
qed

lemma decodeNoteDelta_injected:
  assumes v: "validNoteDelta m"
    and ok: "\<forall>f\<in>set fs. okField f"
    and filt: "filter (\<lambda>f. fnum f \<in> {1, 2, 3, 4, 5}) fs = noteDeltaFields textEncoder m"
  shows "decodeNoteDelta textDecoder (wire fs) = Inr (noteDeltaThroughText textEncoder textDecoder m)"
proof -
  have "decodeNoteDelta textDecoder (wire fs)
        = foldE (\<lambda>f. specAct textDecoder (noteDeltaSpec (fnum f)) f) (noteDeltaFields textEncoder m) noteDeltaDefault"
    by (rule injected_generic [OF decodeNoteDelta_wire noteDeltaSpec_known noteDeltaFields_shape [THEN conjunct1] ok filt])
  moreover have "\<forall>f\<in>set (noteDeltaFields textEncoder m). okField f"
    using ok filt by (metis filter_is_subset subsetD)
  ultimately show ?thesis
    using foldE_noteDelta v by simp
qed


lemma okField_LenField_length: "okField (LenField k bs) \<Longrightarrow> length bs < 2 ^ 53"
  by simp

lemma createNoteResponseSpec_known: "createNoteResponseSpec textDecoder k \<noteq> UnknownField \<longleftrightarrow> k \<in> {1}"
  by (simp add: createNoteResponseSpec_def)

lemma createNoteResponseFields_shape:
  "f \<in> set (optNoteFields textEncoder v)
   \<Longrightarrow> specShape (createNoteResponseSpec textDecoder (fnum f)) f \<and> fnum f \<in> {1}"
  by (auto simp: optNoteFields_def createNoteResponseSpec_def optField_def split: option.splits)

lemma foldE_createNoteResponse:
  assumes v: "validOptNote (cnres_note m)"
    and ok: "\<forall>f\<in>set (optNoteFields textEncoder (cnres_note m)). okField f"
  shows "foldE (\<lambda>f. specAct textDecoder (createNoteResponseSpec textDecoder (fnum f)) f)
           (optNoteFields textEncoder (cnres_note m)) \<lparr>cnres_note = None\<rparr>
         = Inr (m\<lparr>cnres_note := map_option (noteThroughText textEncoder textDecoder) (cnres_note m)\<rparr>)"
proof (cases "cnres_note m")
  case None
  then show ?thesis by (simp add: optNoteFields_def optField_def)
next
  case (Some n0)
  with v have "validNote n0" by (simp add: validOptNote_def)
  moreover from Some ok have "okField (LenField 1 (wire (noteFields textEncoder n0)))"
    by (simp add: optNoteFields_def optField_def)
  then have "length (wire (noteFields textEncoder n0)) < 2 ^ 53"
    by (rule okField_LenField_length)
  ultimately have "decodeNote textDecoder (wire (noteFields textEncoder n0))
             = Inr (noteThroughText textEncoder textDecoder n0)"
    by (rule decodeNote_encoded)
  with Some show ?thesis
    by (simp add: optNoteFields_def optField_def createNoteResponseSpec_def)
qed

lemma decodeCreateNoteResponse_injected:
  assumes v: "validOptNote (cnres_note m)"
    and ok: "\<forall>f\<in>set fs. okField f"
    and filt: "filter (\<lambda>f. fnum f \<in> {1}) fs = optNoteFields textEncoder (cnres_note m)"
  shows "decodeCreateNoteResponse textDecoder (wire fs)
         = Inr (m\<lparr>cnres_note := map_option (noteThroughText textEncoder textDecoder) (cnres_note m)\<rparr>)"
proof -
  have "decodeCreateNoteResponse textDecoder (wire fs)
        = foldE (\<lambda>f. specAct textDecoder (createNoteResponseSpec textDecoder (fnum f)) f)
            (optNoteFields textEncoder (cnres_note m)) \<lparr>cnres_note = None\<rparr>"
    by (rule injected_generic [OF decodeCreateNoteResponse_wire createNoteResponseSpec_known
          createNoteResponseFields_shape [THEN conjunct1] ok filt])
  moreover have "\<forall>f\<in>set (optNoteFields textEncoder (cnres_note m)). okField f"
    using ok filt by (metis filter_is_subset subsetD)
  ultimately show ?thesis
    using foldE_createNoteResponse v by simp
qed

lemma getNoteResponseSpec_known: "getNoteResponseSpec textDecoder k \<noteq> UnknownField \<longleftrightarrow> k \<in> {1}"
  by (simp add: getNoteResponseSpec_def)

lemma getNoteResponseFields_shape:
  "f \<in> set (optNoteFields textEncoder v)
   \<Longrightarrow> specShape (getNoteResponseSpec textDecoder (fnum f)) f \<and> fnum f \<in> {1}"
  by (auto simp: optNoteFields_def getNoteResponseSpec_def optField_def split: option.splits)

lemma foldE_getNoteResponse:
  assumes v: "validOptNote (gnres_note m)"
    and ok: "\<forall>f\<in>set (optNoteFields textEncoder (gnres_note m)). okField f"
  shows "foldE (\<lambda>f. specAct textDecoder (getNoteResponseSpec textDecoder (fnum f)) f)
           (optNoteFields textEncoder (gnres_note m)) \<lparr>gnres_note = None\<rparr>
         = Inr (m\<lparr>gnres_note := map_option (noteThroughText textEncoder textDecoder) (gnres_note m)\<rparr>)"
proof (cases "gnres_note m")
  case None
  then show ?thesis by (simp add: optNoteFields_def optField_def)
next
  case (Some n0)
  with v have "validNote n0" by (simp add: validOptNote_def)
  moreover from Some ok have "okField (LenField 1 (wire (noteFields textEncoder n0)))"
    by (simp add: optNoteFields_def optField_def)
  then have "length (wire (noteFields textEncoder n0)) < 2 ^ 53"
    by (rule okField_LenField_length)
  ultimately have "decodeNote textDecoder (wire (noteFields textEncoder n0))
             = Inr (noteThroughText textEncoder textDecoder n0)"
    by (rule decodeNote_encoded)
  with Some show ?thesis
    by (simp add: optNoteFields_def optField_def getNoteResponseSpec_def)
qed

lemma decodeGetNoteResponse_injected:
  assumes v: "validOptNote (gnres_note m)"
    and ok: "\<forall>f\<in>set fs. okField f"
    and filt: "filter (\<lambda>f. fnum f \<in> {1}) fs = optNoteFields textEncoder (gnres_note m)"
  shows "decodeGetNoteResponse textDecoder (wire fs)
         = Inr (m\<lparr>gnres_note := map_option (noteThroughText textEncoder textDecoder) (gnres_note m)\<rparr>)"
proof -
  have "decodeGetNoteResponse textDecoder (wire fs)
        = foldE (\<lambda>f. specAct textDecoder (getNoteResponseSpec textDecoder (fnum f)) f)
            (optNoteFields textEncoder (gnres_note m)) \<lparr>gnres_note = None\<rparr>"
    by (rule injected_generic [OF decodeGetNoteResponse_wire getNoteResponseSpec_known
          getNoteResponseFields_shape [THEN conjunct1] ok filt])
  moreover have "\<forall>f\<in>set (optNoteFields textEncoder (gnres_note m)). okField f"
    using ok filt by (metis filter_is_subset subsetD)
  ultimately show ?thesis
    using foldE_getNoteResponse v by simp
qed

lemma updateNoteResponseSpec_known: "updateNoteResponseSpec textDecoder k \<noteq> UnknownField \<longleftrightarrow> k \<in> {1}"
  by (simp add: updateNoteResponseSpec_def)

lemma updateNoteResponseFields_shape:
  "f \<in> set (optNoteFields textEncoder v)
   \<Longrightarrow> specShape (updateNoteResponseSpec textDecoder (fnum f)) f \<and> fnum f \<in> {1}"
  by (auto simp: optNoteFields_def updateNoteResponseSpec_def optField_def split: option.splits)

lemma foldE_updateNoteResponse:
  assumes v: "validOptNote (unres_note m)"
    and ok: "\<forall>f\<in>set (optNoteFields textEncoder (unres_note m)). okField f"
  shows "foldE (\<lambda>f. specAct textDecoder (updateNoteResponseSpec textDecoder (fnum f)) f)
           (optNoteFields textEncoder (unres_note m)) \<lparr>unres_note = None\<rparr>
         = Inr (m\<lparr>unres_note := map_option (noteThroughText textEncoder textDecoder) (unres_note m)\<rparr>)"
proof (cases "unres_note m")
  case None
  then show ?thesis by (simp add: optNoteFields_def optField_def)
next
  case (Some n0)
  with v have "validNote n0" by (simp add: validOptNote_def)
  moreover from Some ok have "okField (LenField 1 (wire (noteFields textEncoder n0)))"
    by (simp add: optNoteFields_def optField_def)
  then have "length (wire (noteFields textEncoder n0)) < 2 ^ 53"
    by (rule okField_LenField_length)
  ultimately have "decodeNote textDecoder (wire (noteFields textEncoder n0))
             = Inr (noteThroughText textEncoder textDecoder n0)"
    by (rule decodeNote_encoded)
  with Some show ?thesis
    by (simp add: optNoteFields_def optField_def updateNoteResponseSpec_def)
qed

lemma decodeUpdateNoteResponse_injected:
  assumes v: "validOptNote (unres_note m)"
    and ok: "\<forall>f\<in>set fs. okField f"
    and filt: "filter (\<lambda>f. fnum f \<in> {1}) fs = optNoteFields textEncoder (unres_note m)"
  shows "decodeUpdateNoteResponse textDecoder (wire fs)
         = Inr (m\<lparr>unres_note := map_option (noteThroughText textEncoder textDecoder) (unres_note m)\<rparr>)"
proof -
  have "decodeUpdateNoteResponse textDecoder (wire fs)
        = foldE (\<lambda>f. specAct textDecoder (updateNoteResponseSpec textDecoder (fnum f)) f)
            (optNoteFields textEncoder (unres_note m)) \<lparr>unres_note = None\<rparr>"
    by (rule injected_generic [OF decodeUpdateNoteResponse_wire updateNoteResponseSpec_known
          updateNoteResponseFields_shape [THEN conjunct1] ok filt])
  moreover have "\<forall>f\<in>set (optNoteFields textEncoder (unres_note m)). okField f"
    using ok filt by (metis filter_is_subset subsetD)
  ultimately show ?thesis
    using foldE_updateNoteResponse v by simp
qed

lemma listNotesResponseSpec_known:
  "listNotesResponseSpec textDecoder k \<noteq> UnknownField \<longleftrightarrow> k \<in> {1}"
  by (simp add: listNotesResponseSpec_def)

lemma listNotesResponseFields_shape:
  "f \<in> set (listNotesResponseFields textEncoder m)
   \<Longrightarrow> specShape (listNotesResponseSpec textDecoder (fnum f)) f \<and> fnum f \<in> {1}"
  by (auto simp: listNotesResponseFields_def listNotesResponseSpec_def)

lemma foldE_listNotesResponse:
  assumes v: "list_all validNote (lnres_notes m)"
    and ok: "\<forall>f\<in>set (listNotesResponseFields textEncoder m). okField f"
  shows "foldE (\<lambda>f. specAct textDecoder (listNotesResponseSpec textDecoder (fnum f)) f)
           (listNotesResponseFields textEncoder m) \<lparr>lnres_notes = []\<rparr>
         = Inr (m\<lparr>lnres_notes := map (noteThroughText textEncoder textDecoder) (lnres_notes m)\<rparr>)"
proof -
  have "\<forall>n\<in>set (lnres_notes m). length (wire (noteFields textEncoder n)) < 2 ^ 53"
  proof
    fix n assume "n \<in> set (lnres_notes m)"
    then have "LenField 1 (wire (noteFields textEncoder n)) \<in> set (listNotesResponseFields textEncoder m)"
      by (simp add: listNotesResponseFields_def)
    with ok have "okField (LenField 1 (wire (noteFields textEncoder n)))" by blast
    then show "length (wire (noteFields textEncoder n)) < 2 ^ 53"
      by (rule okField_LenField_length)
  qed
  from foldE_listNotes [OF v this] show ?thesis
    by (simp add: listNotesResponseFields_def)
qed

lemma decodeListNotesResponse_injected:
  assumes v: "list_all validNote (lnres_notes m)"
    and ok: "\<forall>f\<in>set fs. okField f"
    and filt: "filter (\<lambda>f. fnum f \<in> {1}) fs = listNotesResponseFields textEncoder m"
  shows "decodeListNotesResponse textDecoder (wire fs)
         = Inr (m\<lparr>lnres_notes := map (noteThroughText textEncoder textDecoder) (lnres_notes m)\<rparr>)"
proof -
  have "decodeListNotesResponse textDecoder (wire fs)
        = foldE (\<lambda>f. specAct textDecoder (listNotesResponseSpec textDecoder (fnum f)) f)
            (listNotesResponseFields textEncoder m) \<lparr>lnres_notes = []\<rparr>"
    by (rule injected_generic [OF decodeListNotesResponse_wire listNotesResponseSpec_known
          listNotesResponseFields_shape [THEN conjunct1] ok filt])
  moreover have "\<forall>f\<in>set (listNotesResponseFields textEncoder m). okField f"
    using ok filt by (metis filter_is_subset subsetD)
  ultimately show ?thesis
    using foldE_listNotesResponse v by simp
qed

lemma noteEventSpec_known:
  "noteEventSpec textDecoder k \<noteq> UnknownField \<longleftrightarrow> k \<in> {1, 2, 3}"
  by (simp add: noteEventSpec_def)

lemma noteEventFields_shape:
  "f \<in> set (noteEventFields textEncoder ev)
   \<Longrightarrow> specShape (noteEventSpec textDecoder (fnum f)) f \<and> fnum f \<in> {1, 2, 3}"
  by (auto simp: noteEventFields_def noteEventSpec_def split: NoteEvent.splits)

lemma foldE_noteEvent:
  assumes v: "validNoteEvent ev"
    and ok: "\<forall>f\<in>set (noteEventFields textEncoder ev). okField f"
  shows "foldE (\<lambda>f. specAct textDecoder (noteEventSpec textDecoder (fnum f)) f)
           (noteEventFields textEncoder ev) EventUndefined
         = Inr (noteEventThroughText textEncoder textDecoder ev)"
proof (cases ev)
  case (EventCreated n)
  with ok have "okField (LenField 1 (wire (noteFields textEncoder n)))"
    by (simp add: noteEventFields_def)
  then have "length (wire (noteFields textEncoder n)) < 2 ^ 53"
    by (rule okField_LenField_length)
  moreover from v EventCreated have "validNote n" by (simp add: validNoteEvent_def)
  ultimately have "decodeNote textDecoder (wire (noteFields textEncoder n))
             = Inr (noteThroughText textEncoder textDecoder n)"
    by (simp add: decodeNote_encoded)
  with EventCreated show ?thesis
    by (simp add: noteEventFields_def noteEventSpec_def noteEventThroughText_def)
next
  case (EventUpdated d)
  with ok have "okField (LenField 2 (wire (noteDeltaFields textEncoder d)))"
    by (simp add: noteEventFields_def)
  then have "length (wire (noteDeltaFields textEncoder d)) < 2 ^ 53"
    by (rule okField_LenField_length)
  moreover from v EventUpdated have "validNoteDelta d" by (simp add: validNoteEvent_def)
  ultimately have "decodeNoteDelta textDecoder (wire (noteDeltaFields textEncoder d))
             = Inr (noteDeltaThroughText textEncoder textDecoder d)"
    by (simp add: decodeNoteDelta_encoded)
  with EventUpdated show ?thesis
    by (simp add: noteEventFields_def noteEventSpec_def noteEventThroughText_def)
next
  case (EventDeleted x)
  with v have "validInt64 (deleted_id x)" by (simp add: validNoteEvent_def)
  then have "decodeNoteDeleted (wire (noteDeletedFields x)) = Inr x"
    by (rule decodeNoteDeleted_encoded)
  with EventDeleted show ?thesis
    by (simp add: noteEventFields_def noteEventSpec_def noteEventThroughText_def)
next
  case EventUndefined
  then show ?thesis
    by (simp add: noteEventFields_def noteEventThroughText_def)
qed

lemma decodeNoteEvent_injected:
  assumes v: "validNoteEvent ev"
    and ok: "\<forall>f\<in>set fs. okField f"
    and filt: "filter (\<lambda>f. fnum f \<in> {1, 2, 3}) fs = noteEventFields textEncoder ev"
  shows "decodeNoteEvent textDecoder (wire fs)
         = Inr (noteEventThroughText textEncoder textDecoder ev)"
proof -
  have "decodeNoteEvent textDecoder (wire fs)
        = foldE (\<lambda>f. specAct textDecoder (noteEventSpec textDecoder (fnum f)) f)
            (noteEventFields textEncoder ev) EventUndefined"
    by (rule injected_generic [OF decodeNoteEvent_wire noteEventSpec_known
          noteEventFields_shape [THEN conjunct1] ok filt])
  moreover have "\<forall>f\<in>set (noteEventFields textEncoder ev). okField f"
    using ok filt by (metis filter_is_subset subsetD)
  ultimately show ?thesis
    using foldE_noteEvent v by simp
qed

section \<open>The platform's text codec (\<open>new TextEncoder()\<close>, \<open>new TextDecoder()\<close>)\<close>

text \<open>
  \<open>notes.ts\<close> builds its two text codecs with no argument: \<open>textEncoder.encode\<close> is
  the UTF-8 encoder applied to the string converted to scalar values, and
  \<open>textDecoder.decode\<close> is the UTF-8 decoder in replacement mode (\<open>fatal\<close> is false)
  that drops a leading byte order mark (\<open>ignoreBOM\<close> is false). The definitions below
  follow the algorithms of the Encoding standard and of the conversion of a string to a
  scalar value string. Code points are natural numbers.
\<close>

subsection \<open>\<open>TextEncoder.encode\<close>\<close>






subsection \<open>\<open>TextDecoder.decode\<close>\<close>






subsection \<open>Strings that come back unchanged\<close>




subsection \<open>Arithmetic of the byte sequences\<close>







subsection \<open>The decoder undoes the encoder on scalar values\<close>










subsection \<open>Code units and scalar values\<close>











subsection \<open>What the decoder returns is well formed\<close>











subsection \<open>Examples\<close>

text \<open>
  For examples: on strings of ASCII code units UTF-8 is one byte per code unit, which is
  what \<open>asciiEncode\<close> and \<open>asciiDecode\<close> do.
\<close>

definition asciiEncode :: "jsstring \<Rightarrow> byte list" where
  "asciiEncode s = map ucast s"

definition asciiDecode :: "byte list \<Rightarrow> jsstring" where
  "asciiDecode bs = map ucast bs"

abbreviation exNote :: Note where
  "exNote \<equiv> \<lparr>note_id = Finite 1, note_title = [0x41], note_body = [0x42],
     note_created_at_unix_ms = Finite 2, note_updated_at_unix_ms = Finite 3,
     note_version = Finite 300\<rparr>"

lemmas wire_eval =
  wire_def fieldBytes_def tagBytes_def varintBytes.simps noteFields_def varintOf_def BigInt_def
  asciiEncode_def

subsection \<open>Forward compatibility\<close>

text \<open>
  Claim C7. Take any message type, a message its encoder accepts, and the fields the encoder
  writes for it. Insert any number of fields with unknown field numbers, of wire type varint
  or length-delimited, anywhere between them (the fields \<open>fs\<close> whose known-numbered
  subsequence is the encoder's). Then the encoder's buffer is the concatenation of its
  fields, decoding the buffer with the inserted fields succeeds, and it returns what decoding
  the encoder's buffer returns.
\<close>

theorem unknown_fields_are_skipped:
  "(validNote n
      \<and> (\<forall>f\<in>set fs. okField f)
      \<and> filter (\<lambda>f. fnum f \<in> {1, 2, 3, 4, 5, 6}) fs = noteFields enc n
      \<longrightarrow> encodeNote enc n = Inr (wire (noteFields enc n))
        \<and> decodeNote dec (wire fs)
            = decodeNote dec (wire (noteFields enc n))
        \<and> (\<exists>m. decodeNote dec (wire fs) = Inr m))
   \<and> ((\<forall>f\<in>set fs. okField f)
      \<and> filter (\<lambda>f. fnum f \<in> {1, 2}) fs = createNoteRequestFields enc cq
      \<longrightarrow> encodeCreateNoteRequest enc cq = Inr (wire (createNoteRequestFields enc cq))
        \<and> decodeCreateNoteRequest dec (wire fs)
            = decodeCreateNoteRequest dec (wire (createNoteRequestFields enc cq))
        \<and> (\<exists>m. decodeCreateNoteRequest dec (wire fs) = Inr m))
   \<and> (validOptNote (cnres_note cr)
      \<and> (\<forall>f\<in>set fs. okField f)
      \<and> filter (\<lambda>f. fnum f \<in> {1}) fs = optNoteFields enc (cnres_note cr)
      \<longrightarrow> encodeCreateNoteResponse enc cr = Inr (wire (optNoteFields enc (cnres_note cr)))
        \<and> decodeCreateNoteResponse dec (wire fs)
            = decodeCreateNoteResponse dec (wire (optNoteFields enc (cnres_note cr)))
        \<and> (\<exists>m. decodeCreateNoteResponse dec (wire fs) = Inr m))
   \<and> (validOptNote (gnres_note gr)
      \<and> (\<forall>f\<in>set fs. okField f)
      \<and> filter (\<lambda>f. fnum f \<in> {1}) fs = optNoteFields enc (gnres_note gr)
      \<longrightarrow> encodeGetNoteResponse enc gr = Inr (wire (optNoteFields enc (gnres_note gr)))
        \<and> decodeGetNoteResponse dec (wire fs)
            = decodeGetNoteResponse dec (wire (optNoteFields enc (gnres_note gr)))
        \<and> (\<exists>m. decodeGetNoteResponse dec (wire fs) = Inr m))
   \<and> (list_all validNote (lnres_notes lr)
      \<and> (\<forall>f\<in>set fs. okField f)
      \<and> filter (\<lambda>f. fnum f \<in> {1}) fs = listNotesResponseFields enc lr
      \<longrightarrow> encodeListNotesResponse enc lr = Inr (wire (listNotesResponseFields enc lr))
        \<and> decodeListNotesResponse dec (wire fs)
            = decodeListNotesResponse dec (wire (listNotesResponseFields enc lr))
        \<and> (\<exists>m. decodeListNotesResponse dec (wire fs) = Inr m))
   \<and> ((\<forall>f\<in>set fs. okField f)
      \<and> filter (\<lambda>f. fnum f \<in> {1, 2}) fs = updateNoteRequestFields enc uq
      \<longrightarrow> encodeUpdateNoteRequest enc uq = Inr (wire (updateNoteRequestFields enc uq))
        \<and> decodeUpdateNoteRequest dec (wire fs)
            = decodeUpdateNoteRequest dec (wire (updateNoteRequestFields enc uq))
        \<and> (\<exists>m. decodeUpdateNoteRequest dec (wire fs) = Inr m))
   \<and> (validOptNote (unres_note ur)
      \<and> (\<forall>f\<in>set fs. okField f)
      \<and> filter (\<lambda>f. fnum f \<in> {1}) fs = optNoteFields enc (unres_note ur)
      \<longrightarrow> encodeUpdateNoteResponse enc ur = Inr (wire (optNoteFields enc (unres_note ur)))
        \<and> decodeUpdateNoteResponse dec (wire fs)
            = decodeUpdateNoteResponse dec (wire (optNoteFields enc (unres_note ur)))
        \<and> (\<exists>m. decodeUpdateNoteResponse dec (wire fs) = Inr m))
   \<and> (validInt64 (dnres_id dr)
      \<and> (\<forall>f\<in>set fs. okField f)
      \<and> filter (\<lambda>f. fnum f \<in> {1}) fs = deleteNoteResponseFields dr
      \<longrightarrow> encodeDeleteNoteResponse dr = Inr (wire (deleteNoteResponseFields dr))
        \<and> decodeDeleteNoteResponse (wire fs)
            = decodeDeleteNoteResponse (wire (deleteNoteResponseFields dr))
        \<and> (\<exists>m. decodeDeleteNoteResponse (wire fs) = Inr m))
   \<and> (validNoteDelta nd
      \<and> (\<forall>f\<in>set fs. okField f)
      \<and> filter (\<lambda>f. fnum f \<in> {1, 2, 3, 4, 5}) fs = noteDeltaFields enc nd
      \<longrightarrow> encodeNoteDelta enc nd = Inr (wire (noteDeltaFields enc nd))
        \<and> decodeNoteDelta dec (wire fs)
            = decodeNoteDelta dec (wire (noteDeltaFields enc nd))
        \<and> (\<exists>m. decodeNoteDelta dec (wire fs) = Inr m))
   \<and> (validInt64 (deleted_id dl)
      \<and> (\<forall>f\<in>set fs. okField f)
      \<and> filter (\<lambda>f. fnum f \<in> {1}) fs = noteDeletedFields dl
      \<longrightarrow> encodeNoteDeleted dl = Inr (wire (noteDeletedFields dl))
        \<and> decodeNoteDeleted (wire fs)
            = decodeNoteDeleted (wire (noteDeletedFields dl))
        \<and> (\<exists>m. decodeNoteDeleted (wire fs) = Inr m))
   \<and> (validNoteEvent ev
      \<and> (\<forall>f\<in>set fs. okField f)
      \<and> filter (\<lambda>f. fnum f \<in> {1, 2, 3}) fs = noteEventFields enc ev
      \<longrightarrow> encodeNoteEvent enc ev = Inr (wire (noteEventFields enc ev))
        \<and> decodeNoteEvent dec (wire fs)
            = decodeNoteEvent dec (wire (noteEventFields enc ev))
        \<and> (\<exists>m. decodeNoteEvent dec (wire fs) = Inr m))"
proof -
  have c1:
    "(validNote n
        \<and> (\<forall>f\<in>set fs. okField f)
        \<and> filter (\<lambda>f. fnum f \<in> {1, 2, 3, 4, 5, 6}) fs = noteFields enc n
        \<longrightarrow> encodeNote enc n = Inr (wire (noteFields enc n))
          \<and> decodeNote dec (wire fs)
              = decodeNote dec (wire (noteFields enc n))
          \<and> (\<exists>m. decodeNote dec (wire fs) = Inr m))"
  proof (rule impI)
    assume h: "validNote n
        \<and> (\<forall>f\<in>set fs. okField f)
        \<and> filter (\<lambda>f. fnum f \<in> {1, 2, 3, 4, 5, 6}) fs = noteFields enc n"
    then have v: "validNote n" and ok: "\<forall>f\<in>set fs. okField f"
      and filt: "filter (\<lambda>f. fnum f \<in> {1, 2, 3, 4, 5, 6}) fs = noteFields enc n"
      by simp_all
    have sub: "\<forall>f\<in>set (noteFields enc n). okField f"
      using ok filt by (metis filter_is_subset subsetD)
    have same: "filter (\<lambda>f. fnum f \<in> {1, 2, 3, 4, 5, 6}) (noteFields enc n) = noteFields enc n"
      unfolding filt [symmetric] by simp
    note a = decodeNote_injected [OF v ok filt]
      and b = decodeNote_injected [OF v sub same]
    show "encodeNote enc n = Inr (wire (noteFields enc n))
        \<and> decodeNote dec (wire fs)
            = decodeNote dec (wire (noteFields enc n))
        \<and> (\<exists>m. decodeNote dec (wire fs) = Inr m)"
      using encodeNote_wire [OF v] a b by simp
  qed
  have c2:
    "((\<forall>f\<in>set fs. okField f)
        \<and> filter (\<lambda>f. fnum f \<in> {1, 2}) fs = createNoteRequestFields enc cq
        \<longrightarrow> encodeCreateNoteRequest enc cq = Inr (wire (createNoteRequestFields enc cq))
          \<and> decodeCreateNoteRequest dec (wire fs)
              = decodeCreateNoteRequest dec (wire (createNoteRequestFields enc cq))
          \<and> (\<exists>m. decodeCreateNoteRequest dec (wire fs) = Inr m))"
  proof (rule impI)
    assume h: "(\<forall>f\<in>set fs. okField f)
        \<and> filter (\<lambda>f. fnum f \<in> {1, 2}) fs = createNoteRequestFields enc cq"
    then have ok: "\<forall>f\<in>set fs. okField f"
      and filt: "filter (\<lambda>f. fnum f \<in> {1, 2}) fs = createNoteRequestFields enc cq"
      by simp_all
    have sub: "\<forall>f\<in>set (createNoteRequestFields enc cq). okField f"
      using ok filt by (metis filter_is_subset subsetD)
    have same: "filter (\<lambda>f. fnum f \<in> {1, 2}) (createNoteRequestFields enc cq) = createNoteRequestFields enc cq"
      unfolding filt [symmetric] by simp
    note a = decodeCreateNoteRequest_injected [OF ok filt]
      and b = decodeCreateNoteRequest_injected [OF sub same]
    show "encodeCreateNoteRequest enc cq = Inr (wire (createNoteRequestFields enc cq))
        \<and> decodeCreateNoteRequest dec (wire fs)
            = decodeCreateNoteRequest dec (wire (createNoteRequestFields enc cq))
        \<and> (\<exists>m. decodeCreateNoteRequest dec (wire fs) = Inr m)"
      using encodeCreateNoteRequest_wire a b by simp
  qed
  have c3:
    "(validOptNote (cnres_note cr)
        \<and> (\<forall>f\<in>set fs. okField f)
        \<and> filter (\<lambda>f. fnum f \<in> {1}) fs = optNoteFields enc (cnres_note cr)
        \<longrightarrow> encodeCreateNoteResponse enc cr = Inr (wire (optNoteFields enc (cnres_note cr)))
          \<and> decodeCreateNoteResponse dec (wire fs)
              = decodeCreateNoteResponse dec (wire (optNoteFields enc (cnres_note cr)))
          \<and> (\<exists>m. decodeCreateNoteResponse dec (wire fs) = Inr m))"
  proof (rule impI)
    assume h: "validOptNote (cnres_note cr)
        \<and> (\<forall>f\<in>set fs. okField f)
        \<and> filter (\<lambda>f. fnum f \<in> {1}) fs = optNoteFields enc (cnres_note cr)"
    then have v: "validOptNote (cnres_note cr)" and ok: "\<forall>f\<in>set fs. okField f"
      and filt: "filter (\<lambda>f. fnum f \<in> {1}) fs = optNoteFields enc (cnres_note cr)"
      by simp_all
    have sub: "\<forall>f\<in>set (optNoteFields enc (cnres_note cr)). okField f"
      using ok filt by (metis filter_is_subset subsetD)
    have same: "filter (\<lambda>f. fnum f \<in> {1}) (optNoteFields enc (cnres_note cr)) = optNoteFields enc (cnres_note cr)"
      unfolding filt [symmetric] by simp
    note a = decodeCreateNoteResponse_injected [OF v ok filt]
      and b = decodeCreateNoteResponse_injected [OF v sub same]
    show "encodeCreateNoteResponse enc cr = Inr (wire (optNoteFields enc (cnres_note cr)))
        \<and> decodeCreateNoteResponse dec (wire fs)
            = decodeCreateNoteResponse dec (wire (optNoteFields enc (cnres_note cr)))
        \<and> (\<exists>m. decodeCreateNoteResponse dec (wire fs) = Inr m)"
      using encodeCreateNoteResponse_wire [OF v] a b by simp
  qed
  have c4:
    "(validOptNote (gnres_note gr)
        \<and> (\<forall>f\<in>set fs. okField f)
        \<and> filter (\<lambda>f. fnum f \<in> {1}) fs = optNoteFields enc (gnres_note gr)
        \<longrightarrow> encodeGetNoteResponse enc gr = Inr (wire (optNoteFields enc (gnres_note gr)))
          \<and> decodeGetNoteResponse dec (wire fs)
              = decodeGetNoteResponse dec (wire (optNoteFields enc (gnres_note gr)))
          \<and> (\<exists>m. decodeGetNoteResponse dec (wire fs) = Inr m))"
  proof (rule impI)
    assume h: "validOptNote (gnres_note gr)
        \<and> (\<forall>f\<in>set fs. okField f)
        \<and> filter (\<lambda>f. fnum f \<in> {1}) fs = optNoteFields enc (gnres_note gr)"
    then have v: "validOptNote (gnres_note gr)" and ok: "\<forall>f\<in>set fs. okField f"
      and filt: "filter (\<lambda>f. fnum f \<in> {1}) fs = optNoteFields enc (gnres_note gr)"
      by simp_all
    have sub: "\<forall>f\<in>set (optNoteFields enc (gnres_note gr)). okField f"
      using ok filt by (metis filter_is_subset subsetD)
    have same: "filter (\<lambda>f. fnum f \<in> {1}) (optNoteFields enc (gnres_note gr)) = optNoteFields enc (gnres_note gr)"
      unfolding filt [symmetric] by simp
    note a = decodeGetNoteResponse_injected [OF v ok filt]
      and b = decodeGetNoteResponse_injected [OF v sub same]
    show "encodeGetNoteResponse enc gr = Inr (wire (optNoteFields enc (gnres_note gr)))
        \<and> decodeGetNoteResponse dec (wire fs)
            = decodeGetNoteResponse dec (wire (optNoteFields enc (gnres_note gr)))
        \<and> (\<exists>m. decodeGetNoteResponse dec (wire fs) = Inr m)"
      using encodeGetNoteResponse_wire [OF v] a b by simp
  qed
  have c5:
    "(list_all validNote (lnres_notes lr)
        \<and> (\<forall>f\<in>set fs. okField f)
        \<and> filter (\<lambda>f. fnum f \<in> {1}) fs = listNotesResponseFields enc lr
        \<longrightarrow> encodeListNotesResponse enc lr = Inr (wire (listNotesResponseFields enc lr))
          \<and> decodeListNotesResponse dec (wire fs)
              = decodeListNotesResponse dec (wire (listNotesResponseFields enc lr))
          \<and> (\<exists>m. decodeListNotesResponse dec (wire fs) = Inr m))"
  proof (rule impI)
    assume h: "list_all validNote (lnres_notes lr)
        \<and> (\<forall>f\<in>set fs. okField f)
        \<and> filter (\<lambda>f. fnum f \<in> {1}) fs = listNotesResponseFields enc lr"
    then have v: "list_all validNote (lnres_notes lr)" and ok: "\<forall>f\<in>set fs. okField f"
      and filt: "filter (\<lambda>f. fnum f \<in> {1}) fs = listNotesResponseFields enc lr"
      by simp_all
    have sub: "\<forall>f\<in>set (listNotesResponseFields enc lr). okField f"
      using ok filt by (metis filter_is_subset subsetD)
    have same: "filter (\<lambda>f. fnum f \<in> {1}) (listNotesResponseFields enc lr) = listNotesResponseFields enc lr"
      unfolding filt [symmetric] by simp
    note a = decodeListNotesResponse_injected [OF v ok filt]
      and b = decodeListNotesResponse_injected [OF v sub same]
    show "encodeListNotesResponse enc lr = Inr (wire (listNotesResponseFields enc lr))
        \<and> decodeListNotesResponse dec (wire fs)
            = decodeListNotesResponse dec (wire (listNotesResponseFields enc lr))
        \<and> (\<exists>m. decodeListNotesResponse dec (wire fs) = Inr m)"
      using encodeListNotesResponse_wire [OF v] a b by simp
  qed
  have c6:
    "((\<forall>f\<in>set fs. okField f)
        \<and> filter (\<lambda>f. fnum f \<in> {1, 2}) fs = updateNoteRequestFields enc uq
        \<longrightarrow> encodeUpdateNoteRequest enc uq = Inr (wire (updateNoteRequestFields enc uq))
          \<and> decodeUpdateNoteRequest dec (wire fs)
              = decodeUpdateNoteRequest dec (wire (updateNoteRequestFields enc uq))
          \<and> (\<exists>m. decodeUpdateNoteRequest dec (wire fs) = Inr m))"
  proof (rule impI)
    assume h: "(\<forall>f\<in>set fs. okField f)
        \<and> filter (\<lambda>f. fnum f \<in> {1, 2}) fs = updateNoteRequestFields enc uq"
    then have ok: "\<forall>f\<in>set fs. okField f"
      and filt: "filter (\<lambda>f. fnum f \<in> {1, 2}) fs = updateNoteRequestFields enc uq"
      by simp_all
    have sub: "\<forall>f\<in>set (updateNoteRequestFields enc uq). okField f"
      using ok filt by (metis filter_is_subset subsetD)
    have same: "filter (\<lambda>f. fnum f \<in> {1, 2}) (updateNoteRequestFields enc uq) = updateNoteRequestFields enc uq"
      unfolding filt [symmetric] by simp
    note a = decodeUpdateNoteRequest_injected [OF ok filt]
      and b = decodeUpdateNoteRequest_injected [OF sub same]
    show "encodeUpdateNoteRequest enc uq = Inr (wire (updateNoteRequestFields enc uq))
        \<and> decodeUpdateNoteRequest dec (wire fs)
            = decodeUpdateNoteRequest dec (wire (updateNoteRequestFields enc uq))
        \<and> (\<exists>m. decodeUpdateNoteRequest dec (wire fs) = Inr m)"
      using encodeUpdateNoteRequest_wire a b by simp
  qed
  have c7:
    "(validOptNote (unres_note ur)
        \<and> (\<forall>f\<in>set fs. okField f)
        \<and> filter (\<lambda>f. fnum f \<in> {1}) fs = optNoteFields enc (unres_note ur)
        \<longrightarrow> encodeUpdateNoteResponse enc ur = Inr (wire (optNoteFields enc (unres_note ur)))
          \<and> decodeUpdateNoteResponse dec (wire fs)
              = decodeUpdateNoteResponse dec (wire (optNoteFields enc (unres_note ur)))
          \<and> (\<exists>m. decodeUpdateNoteResponse dec (wire fs) = Inr m))"
  proof (rule impI)
    assume h: "validOptNote (unres_note ur)
        \<and> (\<forall>f\<in>set fs. okField f)
        \<and> filter (\<lambda>f. fnum f \<in> {1}) fs = optNoteFields enc (unres_note ur)"
    then have v: "validOptNote (unres_note ur)" and ok: "\<forall>f\<in>set fs. okField f"
      and filt: "filter (\<lambda>f. fnum f \<in> {1}) fs = optNoteFields enc (unres_note ur)"
      by simp_all
    have sub: "\<forall>f\<in>set (optNoteFields enc (unres_note ur)). okField f"
      using ok filt by (metis filter_is_subset subsetD)
    have same: "filter (\<lambda>f. fnum f \<in> {1}) (optNoteFields enc (unres_note ur)) = optNoteFields enc (unres_note ur)"
      unfolding filt [symmetric] by simp
    note a = decodeUpdateNoteResponse_injected [OF v ok filt]
      and b = decodeUpdateNoteResponse_injected [OF v sub same]
    show "encodeUpdateNoteResponse enc ur = Inr (wire (optNoteFields enc (unres_note ur)))
        \<and> decodeUpdateNoteResponse dec (wire fs)
            = decodeUpdateNoteResponse dec (wire (optNoteFields enc (unres_note ur)))
        \<and> (\<exists>m. decodeUpdateNoteResponse dec (wire fs) = Inr m)"
      using encodeUpdateNoteResponse_wire [OF v] a b by simp
  qed
  have c8:
    "(validInt64 (dnres_id dr)
        \<and> (\<forall>f\<in>set fs. okField f)
        \<and> filter (\<lambda>f. fnum f \<in> {1}) fs = deleteNoteResponseFields dr
        \<longrightarrow> encodeDeleteNoteResponse dr = Inr (wire (deleteNoteResponseFields dr))
          \<and> decodeDeleteNoteResponse (wire fs)
              = decodeDeleteNoteResponse (wire (deleteNoteResponseFields dr))
          \<and> (\<exists>m. decodeDeleteNoteResponse (wire fs) = Inr m))"
  proof (rule impI)
    assume h: "validInt64 (dnres_id dr)
        \<and> (\<forall>f\<in>set fs. okField f)
        \<and> filter (\<lambda>f. fnum f \<in> {1}) fs = deleteNoteResponseFields dr"
    then have v: "validInt64 (dnres_id dr)" and ok: "\<forall>f\<in>set fs. okField f"
      and filt: "filter (\<lambda>f. fnum f \<in> {1}) fs = deleteNoteResponseFields dr"
      by simp_all
    have sub: "\<forall>f\<in>set (deleteNoteResponseFields dr). okField f"
      using ok filt by (metis filter_is_subset subsetD)
    have same: "filter (\<lambda>f. fnum f \<in> {1}) (deleteNoteResponseFields dr) = deleteNoteResponseFields dr"
      unfolding filt [symmetric] by simp
    note a = decodeDeleteNoteResponse_injected [OF v ok filt]
      and b = decodeDeleteNoteResponse_injected [OF v sub same]
    show "encodeDeleteNoteResponse dr = Inr (wire (deleteNoteResponseFields dr))
        \<and> decodeDeleteNoteResponse (wire fs)
            = decodeDeleteNoteResponse (wire (deleteNoteResponseFields dr))
        \<and> (\<exists>m. decodeDeleteNoteResponse (wire fs) = Inr m)"
      using encodeDeleteNoteResponse_wire [OF v] a b by simp
  qed
  have c9:
    "(validNoteDelta nd
        \<and> (\<forall>f\<in>set fs. okField f)
        \<and> filter (\<lambda>f. fnum f \<in> {1, 2, 3, 4, 5}) fs = noteDeltaFields enc nd
        \<longrightarrow> encodeNoteDelta enc nd = Inr (wire (noteDeltaFields enc nd))
          \<and> decodeNoteDelta dec (wire fs)
              = decodeNoteDelta dec (wire (noteDeltaFields enc nd))
          \<and> (\<exists>m. decodeNoteDelta dec (wire fs) = Inr m))"
  proof (rule impI)
    assume h: "validNoteDelta nd
        \<and> (\<forall>f\<in>set fs. okField f)
        \<and> filter (\<lambda>f. fnum f \<in> {1, 2, 3, 4, 5}) fs = noteDeltaFields enc nd"
    then have v: "validNoteDelta nd" and ok: "\<forall>f\<in>set fs. okField f"
      and filt: "filter (\<lambda>f. fnum f \<in> {1, 2, 3, 4, 5}) fs = noteDeltaFields enc nd"
      by simp_all
    have sub: "\<forall>f\<in>set (noteDeltaFields enc nd). okField f"
      using ok filt by (metis filter_is_subset subsetD)
    have same: "filter (\<lambda>f. fnum f \<in> {1, 2, 3, 4, 5}) (noteDeltaFields enc nd) = noteDeltaFields enc nd"
      unfolding filt [symmetric] by simp
    note a = decodeNoteDelta_injected [OF v ok filt]
      and b = decodeNoteDelta_injected [OF v sub same]
    show "encodeNoteDelta enc nd = Inr (wire (noteDeltaFields enc nd))
        \<and> decodeNoteDelta dec (wire fs)
            = decodeNoteDelta dec (wire (noteDeltaFields enc nd))
        \<and> (\<exists>m. decodeNoteDelta dec (wire fs) = Inr m)"
      using encodeNoteDelta_wire [OF v] a b by simp
  qed
  have c10:
    "(validInt64 (deleted_id dl)
        \<and> (\<forall>f\<in>set fs. okField f)
        \<and> filter (\<lambda>f. fnum f \<in> {1}) fs = noteDeletedFields dl
        \<longrightarrow> encodeNoteDeleted dl = Inr (wire (noteDeletedFields dl))
          \<and> decodeNoteDeleted (wire fs)
              = decodeNoteDeleted (wire (noteDeletedFields dl))
          \<and> (\<exists>m. decodeNoteDeleted (wire fs) = Inr m))"
  proof (rule impI)
    assume h: "validInt64 (deleted_id dl)
        \<and> (\<forall>f\<in>set fs. okField f)
        \<and> filter (\<lambda>f. fnum f \<in> {1}) fs = noteDeletedFields dl"
    then have v: "validInt64 (deleted_id dl)" and ok: "\<forall>f\<in>set fs. okField f"
      and filt: "filter (\<lambda>f. fnum f \<in> {1}) fs = noteDeletedFields dl"
      by simp_all
    have sub: "\<forall>f\<in>set (noteDeletedFields dl). okField f"
      using ok filt by (metis filter_is_subset subsetD)
    have same: "filter (\<lambda>f. fnum f \<in> {1}) (noteDeletedFields dl) = noteDeletedFields dl"
      unfolding filt [symmetric] by simp
    note a = decodeNoteDeleted_injected [OF v ok filt]
      and b = decodeNoteDeleted_injected [OF v sub same]
    show "encodeNoteDeleted dl = Inr (wire (noteDeletedFields dl))
        \<and> decodeNoteDeleted (wire fs)
            = decodeNoteDeleted (wire (noteDeletedFields dl))
        \<and> (\<exists>m. decodeNoteDeleted (wire fs) = Inr m)"
      using encodeNoteDeleted_wire [OF v] a b by simp
  qed
  have c11:
    "(validNoteEvent ev
        \<and> (\<forall>f\<in>set fs. okField f)
        \<and> filter (\<lambda>f. fnum f \<in> {1, 2, 3}) fs = noteEventFields enc ev
        \<longrightarrow> encodeNoteEvent enc ev = Inr (wire (noteEventFields enc ev))
          \<and> decodeNoteEvent dec (wire fs)
              = decodeNoteEvent dec (wire (noteEventFields enc ev))
          \<and> (\<exists>m. decodeNoteEvent dec (wire fs) = Inr m))"
  proof (rule impI)
    assume h: "validNoteEvent ev
        \<and> (\<forall>f\<in>set fs. okField f)
        \<and> filter (\<lambda>f. fnum f \<in> {1, 2, 3}) fs = noteEventFields enc ev"
    then have v: "validNoteEvent ev" and ok: "\<forall>f\<in>set fs. okField f"
      and filt: "filter (\<lambda>f. fnum f \<in> {1, 2, 3}) fs = noteEventFields enc ev"
      by simp_all
    have sub: "\<forall>f\<in>set (noteEventFields enc ev). okField f"
      using ok filt by (metis filter_is_subset subsetD)
    have same: "filter (\<lambda>f. fnum f \<in> {1, 2, 3}) (noteEventFields enc ev) = noteEventFields enc ev"
      unfolding filt [symmetric] by simp
    note a = decodeNoteEvent_injected [OF v ok filt]
      and b = decodeNoteEvent_injected [OF v sub same]
    show "encodeNoteEvent enc ev = Inr (wire (noteEventFields enc ev))
        \<and> decodeNoteEvent dec (wire fs)
            = decodeNoteEvent dec (wire (noteEventFields enc ev))
        \<and> (\<exists>m. decodeNoteEvent dec (wire fs) = Inr m)"
      using encodeNoteEvent_wire [OF v] a b by simp
  qed
  show ?thesis
    by (intro conjI c1 c2 c3 c4 c5 c6 c7 c8 c9 c10 c11)
qed


text \<open>
  The example note with an unknown varint field 15 in front and an unknown
  length-delimited field 16 at the end.
\<close>

theorem unknown_fields_are_skipped_witness:
  "decodeNote asciiDecode
     [120, 7, 8, 1, 18, 1, 65, 26, 1, 66, 32, 2, 40, 3, 48, 172, 2, 130, 1, 3, 1, 2, 3]
   = decodeNote asciiDecode [8, 1, 18, 1, 65, 26, 1, 66, 32, 2, 40, 3, 48, 172, 2]
   \<and> wire (VarintField 15 7 # noteFields asciiEncode exNote @ [LenField 16 [1, 2, 3]])
     = [120, 7, 8, 1, 18, 1, 65, 26, 1, 66, 32, 2, 40, 3, 48, 172, 2, 130, 1, 3, 1, 2, 3]"
proof -
  let ?fs = "VarintField 15 7 # noteFields asciiEncode exNote @ [LenField 16 [1, 2, 3]]"
  have v: "validNote exNote"
    by (simp add: validNote_def validInt64_def MAX_SAFE_INTEGER_def)
  have ok: "\<forall>f\<in>set ?fs. okField f"
    by (simp add: noteFields_def varintOf_def BigInt_def asciiEncode_def)
  have filt: "filter (\<lambda>f. fnum f \<in> {1, 2, 3, 4, 5, 6}) ?fs = noteFields asciiEncode exNote"
    by (simp add: noteFields_def)
  have w1: "wire ?fs
     = [120, 7, 8, 1, 18, 1, 65, 26, 1, 66, 32, 2, 40, 3, 48, 172, 2, 130, 1, 3, 1, 2, 3]"
    by (simp add: wire_eval)
  have w2: "wire (noteFields asciiEncode exNote)
     = [8, 1, 18, 1, 65, 26, 1, 66, 32, 2, 40, 3, 48, 172, 2]"
    by (simp add: wire_eval)
  from unknown_fields_are_skipped [where n = exNote and fs = ?fs and enc = asciiEncode
      and dec = asciiDecode] v ok filt
  have "decodeNote asciiDecode (wire ?fs)
        = decodeNote asciiDecode (wire (noteFields asciiEncode exNote))"
    by blast
  then show ?thesis
    unfolding w1 w2 by (simp add: w1)
qed

subsection \<open>Several members of the event union in one buffer\<close>

text \<open>
  The members of the union are the fields 1, 2 and 3. \<open>memberEvent\<close> is what a member
  field alone decodes to: the event of its kind, or the error of decoding its payload.
  \<open>eventMembers fs\<close> are the member fields among \<open>fs\<close>, in order, and
  \<open>eventFieldsOk fs\<close> says that \<open>fs\<close> are well-formed wire fields whose members are
  length-delimited.
\<close>

fun memberEvent :: "(byte list \<Rightarrow> jsstring) \<Rightarrow> field \<Rightarrow> error + NoteEvent" where
  "memberEvent textDecoder (LenField k bs) =
     (if k = 1 then
        (case decodeNote textDecoder bs of Inl e \<Rightarrow> Inl e | Inr n \<Rightarrow> Inr (EventCreated n))
      else if k = 2 then
        (case decodeNoteDelta textDecoder bs of Inl e \<Rightarrow> Inl e | Inr d \<Rightarrow> Inr (EventUpdated d))
      else
        (case decodeNoteDeleted bs of Inl e \<Rightarrow> Inl e | Inr x \<Rightarrow> Inr (EventDeleted x)))"
| "memberEvent textDecoder (VarintField k v) = Inr EventUndefined"

definition eventMembers :: "field list \<Rightarrow> field list" where
  "eventMembers fs = filter (\<lambda>f. fnum f \<in> {1, 2, 3}) fs"

definition eventFieldsOk :: "field list \<Rightarrow> bool" where
  "eventFieldsOk fs \<longleftrightarrow>
     (\<forall>f\<in>set fs. okField f \<and> (fnum f \<in> {1, 2, 3} \<longrightarrow> (\<exists>bs. f = LenField (fnum f) bs)))"

lemma eventAct_member:
  "fnum f \<in> {1, 2, 3} \<Longrightarrow> \<exists>bs. f = LenField (fnum f) bs
   \<Longrightarrow> specAct textDecoder (noteEventSpec textDecoder (fnum f)) f m = memberEvent textDecoder f"
  by (auto simp: noteEventSpec_def)

lemma eventAct_other:
  "fnum f \<notin> {1, 2, 3}
   \<Longrightarrow> specAct textDecoder (noteEventSpec textDecoder (fnum f)) f m = Inr m"
  by (simp add: noteEventSpec_def)

lemma foldE_event:
  assumes "eventFieldsOk fs"
  shows "foldE (\<lambda>f. specAct textDecoder (noteEventSpec textDecoder (fnum f)) f) fs m
         = (if \<exists>f\<in>set (eventMembers fs). \<exists>e. memberEvent textDecoder f = Inl e
            then memberEvent textDecoder
                   (hd (filter (\<lambda>f. \<exists>e. memberEvent textDecoder f = Inl e) (eventMembers fs)))
            else if eventMembers fs = [] then Inr m
            else memberEvent textDecoder (last (eventMembers fs)))"
  using assms
proof (induction fs arbitrary: m)
  case Nil
  then show ?case by (simp add: eventMembers_def)
next
  case (Cons f fs)
  from Cons.prems have ok: "eventFieldsOk fs"
    and shape: "fnum f \<in> {1, 2, 3} \<longrightarrow> (\<exists>bs. f = LenField (fnum f) bs)"
    by (simp_all add: eventFieldsOk_def)
  note IH = Cons.IH [OF ok]
  show ?case
  proof (cases "fnum f \<in> {1, 2, 3}")
    case False
    then have "eventMembers (f # fs) = eventMembers fs" by (simp add: eventMembers_def)
    with False IH show ?thesis by (simp add: eventAct_other del: insert_iff)
  next
    case True
    with shape have act: "specAct textDecoder (noteEventSpec textDecoder (fnum f)) f m
                          = memberEvent textDecoder f"
      by (simp add: eventAct_member del: insert_iff)
    from True have mem: "eventMembers (f # fs) = f # eventMembers fs"
      by (simp add: eventMembers_def)
    show ?thesis
    proof (cases "memberEvent textDecoder f")
      case (Inl e)
      with act mem show ?thesis by simp
    next
      case (Inr ev)
      with act mem IH [of ev] show ?thesis by auto
    qed
  qed
qed

lemma eventFieldsOk_shape:
  "eventFieldsOk fs
   \<Longrightarrow> \<forall>f\<in>set fs. okField f \<and> specShape (noteEventSpec textDecoder (fnum f)) f"
  unfolding eventFieldsOk_def noteEventSpec_def
  by (auto split: if_splits)

lemma decodeNoteEvent_fields:
  assumes "eventFieldsOk fs"
  shows "decodeNoteEvent textDecoder (wire fs)
         = (if \<exists>f\<in>set (eventMembers fs). \<exists>e. memberEvent textDecoder f = Inl e
            then memberEvent textDecoder
                   (hd (filter (\<lambda>f. \<exists>e. memberEvent textDecoder f = Inl e) (eventMembers fs)))
            else if eventMembers fs = [] then Inr EventUndefined
            else memberEvent textDecoder (last (eventMembers fs)))"
  using decodeNoteEvent_wire [OF eventFieldsOk_shape [OF assms]] foldE_event [OF assms]
  by simp


text \<open>Evaluating the reader on concrete buffers.\<close>

lemmas reader_eval =
  newReader_def eof_def readTag_def readVarint_def readVarint_loop.simps readInt64_def
  readBytes_def readString_def skipField_def Number_of_bigint_def roundingUnit.simps
  MAX_SAFE_INTEGER_def WIRE_VARINT_def WIRE_LENGTH_DELIMITED_def Let_def

lemma decodeNote_truncated: "decodeNote textDecoder [8] = Inl UnexpectedEnd"
  by (simp add: decodeNote_def decodeNote_loop.simps decodeNote_field_def reader_eval
      split del: if_split)

lemma decodeNoteDelta_empty: "decodeNoteDelta textDecoder [] = Inr noteDeltaDefault"
  by (simp add: decodeNoteDelta_def decodeNoteDelta_loop.simps reader_eval noteDeltaDefault_def
      split del: if_split)

lemma decodeNoteDeleted_seven: "decodeNoteDeleted [8, 7] = Inr \<lparr>deleted_id = Finite 7\<rparr>"
  by (simp add: decodeNoteDeleted_def decodeNoteDeleted_loop.simps decodeNoteDeleted_field_def
      reader_eval split del: if_split)

text \<open>
  Claim C10 says that a buffer in which more than one member field appears never fails to
  decode. The five bytes below hold two member fields, \<open>created\<close> with the one-byte payload
  \<open>[8]\<close> and \<open>updated\<close> with an empty payload. The payload \<open>[8]\<close> is a tag with nothing
  after it, so decoding the first member fails and with it the whole event, although the
  second member alone decodes.
\<close>

theorem decodeNoteEvent_malformed_member_counterexample:
  "wire [LenField 1 [8], LenField 2 []] = [10, 1, 8, 18, 0]
   \<and> decodeNoteEvent asciiDecode [10, 1, 8, 18, 0] = Inl UnexpectedEnd
   \<and> decodeNoteEvent asciiDecode [18, 0] = Inr (EventUpdated noteDeltaDefault)"
  by (simp add: wire_eval decodeNoteEvent_def decodeNoteEvent_loop.simps
      decodeNoteEvent_field_def reader_eval decodeNote_truncated decodeNoteDelta_empty
      split del: if_split)

lemma hd_filter_holds: "filter P ys \<noteq> [] \<Longrightarrow> P (hd (filter P ys))"
  by (induction ys) auto

text \<open>
  Claim C10, as the code has it. For a buffer made of well-formed wire fields whose member
  fields are length-delimited: if the payload of every member field decodes as its message
  type, \<open>decodeNoteEvent\<close> succeeds and returns the event of the member field that comes
  last, whatever members come before it, and the empty event when there is no member field;
  if the payload of some member field does not decode, the whole decode fails, also when a
  later member would have replaced that one.
\<close>

theorem decodeNoteEvent_last_member:
  assumes "eventFieldsOk fs"
  shows "((\<forall>f\<in>set (eventMembers fs). \<exists>ev. memberEvent textDecoder f = Inr ev) \<longrightarrow>
            decodeNoteEvent textDecoder (wire fs)
            = (if eventMembers fs = [] then Inr EventUndefined
               else memberEvent textDecoder (last (eventMembers fs)))
            \<and> (\<exists>ev. decodeNoteEvent textDecoder (wire fs) = Inr ev))
         \<and> ((\<exists>f\<in>set (eventMembers fs). \<exists>e. memberEvent textDecoder f = Inl e) \<longrightarrow>
            (\<exists>e. decodeNoteEvent textDecoder (wire fs) = Inl e))"
proof (intro conjI impI)
  assume all: "\<forall>f\<in>set (eventMembers fs). \<exists>ev. memberEvent textDecoder f = Inr ev"
  then have none: "\<not> (\<exists>f\<in>set (eventMembers fs). \<exists>e. memberEvent textDecoder f = Inl e)"
    by fastforce
  show eq: "decodeNoteEvent textDecoder (wire fs)
        = (if eventMembers fs = [] then Inr EventUndefined
           else memberEvent textDecoder (last (eventMembers fs)))"
    using decodeNoteEvent_fields [OF assms, of textDecoder] none by simp
  show "\<exists>ev. decodeNoteEvent textDecoder (wire fs) = Inr ev"
  proof (cases "eventMembers fs = []")
    case True
    with eq show ?thesis by simp
  next
    case False
    then have "last (eventMembers fs) \<in> set (eventMembers fs)" by simp
    with all obtain ev where "memberEvent textDecoder (last (eventMembers fs)) = Inr ev"
      by blast
    with eq False show ?thesis by simp
  qed
next
  assume bad: "\<exists>f\<in>set (eventMembers fs). \<exists>e. memberEvent textDecoder f = Inl e"
  let ?bad = "filter (\<lambda>f. \<exists>e. memberEvent textDecoder f = Inl e) (eventMembers fs)"
  from bad have "?bad \<noteq> []" by (simp add: filter_empty_conv)
  then obtain e where "memberEvent textDecoder (hd ?bad) = Inl e"
    using hd_filter_holds [of "\<lambda>f. \<exists>e. memberEvent textDecoder f = Inl e" "eventMembers fs"]
    by blast
  with bad show "\<exists>e. decodeNoteEvent textDecoder (wire fs) = Inl e"
    using decodeNoteEvent_fields [OF assms, of textDecoder] by simp
qed

text \<open>A \<open>deleted\<close> member, an unknown field, then an \<open>updated\<close> member: the last one wins.\<close>

theorem decodeNoteEvent_last_member_witness:
  "wire [LenField 3 [8, 7], VarintField 9 5, LenField 2 []] = [26, 2, 8, 7, 72, 5, 18, 0]
   \<and> decodeNoteEvent asciiDecode [26, 2, 8, 7, 72, 5, 18, 0] = Inr (EventUpdated noteDeltaDefault)"
proof -
  let ?fs = "[LenField 3 [8, 7], VarintField 9 5, LenField 2 []]"
  have w: "wire ?fs = [26, 2, 8, 7, 72, 5, 18, 0]"
    by (simp add: wire_eval)
  have ok: "eventFieldsOk ?fs"
    by (simp add: eventFieldsOk_def)
  have mem: "eventMembers ?fs = [LenField 3 [8, 7], LenField 2 []]"
    by (simp add: eventMembers_def)
  have "\<forall>f\<in>set (eventMembers ?fs). \<exists>ev. memberEvent asciiDecode f = Inr ev"
    by (simp add: mem decodeNoteDeleted_seven decodeNoteDelta_empty)
  with decodeNoteEvent_last_member [OF ok, of asciiDecode]
  have "decodeNoteEvent asciiDecode (wire ?fs) = memberEvent asciiDecode (last (eventMembers ?fs))"
    by (simp add: mem)
  then show ?thesis
    by (simp add: w mem decodeNoteDelta_empty)
qed

section \<open>Round trip of the codec\<close>






























section \<open>Decode errors\<close>

text \<open>
  Every decoder is the same loop: until the reader is at the end, read a tag and let the
  message's \<open>switch\<close> consume the field. \<open>runFields step n\<close> is that loop stopped after
  at most \<open>n\<close> fields: it returns the error thrown so far, or the reader and the message
  reached. \<open>nestedFails decode r e\<close>: reading a nested message at \<open>r\<close> throws \<open>e\<close>,
  either from \<open>readBytes\<close> or from the nested decoder on the bytes read.
\<close>

fun runFields ::
  "(Tag \<Rightarrow> Reader \<Rightarrow> 'm \<Rightarrow> error + Reader \<times> 'm) \<Rightarrow> nat \<Rightarrow> Reader \<Rightarrow> 'm \<Rightarrow> error + Reader \<times> 'm" where
  "runFields step 0 r m = Inr (r, m)"
| "runFields step (Suc n) r m =
     (if eof r then Inr (r, m)
      else case readTag r of
             Inl e \<Rightarrow> Inl e
           | Inr (tag, r1) \<Rightarrow>
               (case step tag r1 m of
                  Inl e \<Rightarrow> Inl e
                | Inr (r2, m') \<Rightarrow> runFields step n r2 m'))"

definition nestedFails :: "(byte list \<Rightarrow> error + 'a) \<Rightarrow> Reader \<Rightarrow> error \<Rightarrow> bool" where
  "nestedFails decode r e =
     (case readBytes r of Inl e' \<Rightarrow> e' = e | Inr (bs, r') \<Rightarrow> decode bs = Inl e)"

lemma runFields_loop:
  fixes loop :: "Reader \<Rightarrow> 'm \<Rightarrow> error + 'm"
  assumes unfold: "\<And>r m. loop r m =
      (if eof r then Inr m
       else case readTag r of
              Inl e \<Rightarrow> Inl e
            | Inr (tag, r1) \<Rightarrow>
                (case step tag r1 m of Inl e \<Rightarrow> Inl e | Inr (r2, m') \<Rightarrow> loop r2 m'))"
  shows "loop r m = (case runFields step n r m of Inl e \<Rightarrow> Inl e | Inr (r', m') \<Rightarrow> loop r' m')"
proof (induction n arbitrary: r m)
  case 0
  show ?case by simp
next
  case (Suc n)
  show ?case
  proof (cases "eof r")
    case True
    then show ?thesis by simp
  next
    case False
    show ?thesis
    proof (cases "readTag r")
      case (Inl e)
      with False show ?thesis by (subst unfold) simp
    next
      case (Inr p)
      obtain tag r1 where p: "p = (tag, r1)" by (cases p)
      show ?thesis
      proof (cases "step tag r1 m")
        case (Inl e)
        with False Inr p show ?thesis by (subst unfold) simp
      next
        case step: (Inr q)
        obtain r2 m' where q: "q = (r2, m')" by (cases q)
        have "loop r m = loop r2 m'"
          using False Inr p step q by (subst unfold) simp
        also have "\<dots> = (case runFields step n r2 m' of
                             Inl e \<Rightarrow> Inl e | Inr (r', m'') \<Rightarrow> loop r' m'')"
          by (rule Suc.IH)
        finally show ?thesis
          using False Inr p step q by simp
      qed
    qed
  qed
qed


subsection \<open>Errors of the reader\<close>














subsection \<open>An error inside the loop is the result of the decoder\<close>












subsection \<open>When the \<open>switch\<close> of a decoder throws\<close>

lemma decodeNote_field_fails:
  "decodeNote_field textDecoder tag r m = Inl e \<longleftrightarrow>
     (if fieldNumber tag \<in> {1, 4, 5, 6} then readInt64 r = Inl e
      else if fieldNumber tag \<in> {2, 3} then readString textDecoder r = Inl e
      else skipField (wireType tag) r = Inl e)"
  by (simp add: decodeNote_field_def split: sum.split)


lemma decodeCreateNoteResponse_field_fails:
  "decodeCreateNoteResponse_field textDecoder tag r m = Inl e \<longleftrightarrow>
     (if fieldNumber tag = 1 then nestedFails (decodeNote textDecoder) r e
      else skipField (wireType tag) r = Inl e)"
  by (simp add: decodeCreateNoteResponse_field_def nestedFails_def split: sum.split)

lemma decodeGetNoteResponse_field_fails:
  "decodeGetNoteResponse_field textDecoder tag r m = Inl e \<longleftrightarrow>
     (if fieldNumber tag = 1 then nestedFails (decodeNote textDecoder) r e
      else skipField (wireType tag) r = Inl e)"
  by (simp add: decodeGetNoteResponse_field_def nestedFails_def split: sum.split)

lemma decodeListNotesResponse_field_fails:
  "decodeListNotesResponse_field textDecoder tag r m = Inl e \<longleftrightarrow>
     (if fieldNumber tag = 1 then nestedFails (decodeNote textDecoder) r e
      else skipField (wireType tag) r = Inl e)"
  by (simp add: decodeListNotesResponse_field_def nestedFails_def split: sum.split)


lemma decodeUpdateNoteResponse_field_fails:
  "decodeUpdateNoteResponse_field textDecoder tag r m = Inl e \<longleftrightarrow>
     (if fieldNumber tag = 1 then nestedFails (decodeNote textDecoder) r e
      else skipField (wireType tag) r = Inl e)"
  by (simp add: decodeUpdateNoteResponse_field_def nestedFails_def split: sum.split)

lemma decodeDeleteNoteResponse_field_fails:
  "decodeDeleteNoteResponse_field tag r m = Inl e \<longleftrightarrow>
     (if fieldNumber tag = 1 then readInt64 r = Inl e
      else skipField (wireType tag) r = Inl e)"
  by (simp add: decodeDeleteNoteResponse_field_def split: sum.split)

lemma decodeNoteDelta_field_fails:
  "decodeNoteDelta_field textDecoder tag r m = Inl e \<longleftrightarrow>
     (if fieldNumber tag \<in> {1, 4, 5} then readInt64 r = Inl e
      else if fieldNumber tag \<in> {2, 3} then readString textDecoder r = Inl e
      else skipField (wireType tag) r = Inl e)"
  by (simp add: decodeNoteDelta_field_def split: sum.split)

lemma decodeNoteDeleted_field_fails:
  "decodeNoteDeleted_field tag r m = Inl e \<longleftrightarrow>
     (if fieldNumber tag = 1 then readInt64 r = Inl e
      else skipField (wireType tag) r = Inl e)"
  by (simp add: decodeNoteDeleted_field_def split: sum.split)

lemma decodeNoteEvent_field_fails:
  "decodeNoteEvent_field textDecoder tag r m = Inl e \<longleftrightarrow>
     (if fieldNumber tag = 1 then nestedFails (decodeNote textDecoder) r e
      else if fieldNumber tag = 2 then nestedFails (decodeNoteDelta textDecoder) r e
      else if fieldNumber tag = 3 then nestedFails decodeNoteDeleted r e
      else skipField (wireType tag) r = Inl e)"
  by (simp add: decodeNoteEvent_field_def nestedFails_def split: sum.split)








section \<open>Integer fields\<close>

text \<open>
  \<open>fieldAt step n\<close> is the field the loop of a decoder meets after \<open>n\<close> fields: its tag,
  the reader placed at its value and the message built so far. \<open>notFiniteNonNegative\<close> is
  the first test of \<open>numberToVarint\<close>, \<open>!Number.isFinite(value) || value < 0\<close>; a note
  or a delta is rejected when one of its integer fields is.
\<close>

definition fieldAt ::
  "(Tag \<Rightarrow> Reader \<Rightarrow> 'm \<Rightarrow> error + Reader \<times> 'm) \<Rightarrow> nat \<Rightarrow> Reader \<Rightarrow> 'm
   \<Rightarrow> (Tag \<times> Reader \<times> 'm) option" where
  "fieldAt step n r m =
     (case runFields step n r m of
        Inl e \<Rightarrow> None
      | Inr (r0, m0) \<Rightarrow>
          if eof r0 then None
          else case readTag r0 of Inl e \<Rightarrow> None | Inr (tag, r1) \<Rightarrow> Some (tag, r1, m0))"

definition notFiniteNonNegative :: "number \<Rightarrow> bool" where
  "notFiniteNonNegative v \<longleftrightarrow> \<not> Number_isFinite v \<or> lessThanZero v"

definition rejectedNote :: "Note \<Rightarrow> bool" where
  "rejectedNote m \<longleftrightarrow>
     notFiniteNonNegative (note_id m) \<or> notFiniteNonNegative (note_created_at_unix_ms m)
     \<or> notFiniteNonNegative (note_updated_at_unix_ms m) \<or> notFiniteNonNegative (note_version m)"

definition rejectedNoteDelta :: "NoteDelta \<Rightarrow> bool" where
  "rejectedNoteDelta m \<longleftrightarrow>
     notFiniteNonNegative (nd_id m) \<or> notFiniteNonNegative (nd_updated_at_unix_ms m)
     \<or> notFiniteNonNegative (nd_version m)"

lemma fieldAt_error:
  fixes loop :: "Reader \<Rightarrow> 'm \<Rightarrow> error + 'm"
  assumes unfold: "\<And>r m. loop r m =
      (if eof r then Inr m
       else case readTag r of
              Inl e \<Rightarrow> Inl e
            | Inr (tag, r1) \<Rightarrow>
                (case step tag r1 m of Inl e \<Rightarrow> Inl e | Inr (r2, m') \<Rightarrow> loop r2 m'))"
    and at: "fieldAt step n r m = Some (tag, r1, m0)"
    and fails: "step tag r1 m0 = Inl e"
  shows "loop r m = Inl e"
proof -
  from at obtain r0 where run: "runFields step n r m = Inr (r0, m0)"
    and more: "\<not> eof r0" and tag: "readTag r0 = Inr (tag, r1)"
    by (auto simp: fieldAt_def split: sum.splits if_splits)
  have "loop r m = loop r0 m0"
    using runFields_loop [of loop step r m n, OF unfold] run by simp
  also have "\<dots> = Inl e"
    using more tag fails by (subst unfold) simp
  finally show ?thesis .
qed

lemma decodeNote_fieldAt:
  assumes "fieldAt (decodeNote_field textDecoder) n r m = Some (tag, r1, m0)"
    and "decodeNote_field textDecoder tag r1 m0 = Inl e"
  shows "decodeNote_loop textDecoder r m = Inl e"
  using decodeNote_loop.simps assms by (rule fieldAt_error [where step = "decodeNote_field textDecoder"])

lemma decodeCreateNoteResponse_fieldAt:
  assumes "fieldAt (decodeCreateNoteResponse_field textDecoder) n r m = Some (tag, r1, m0)"
    and "decodeCreateNoteResponse_field textDecoder tag r1 m0 = Inl e"
  shows "decodeCreateNoteResponse_loop textDecoder r m = Inl e"
  using decodeCreateNoteResponse_loop.simps assms by (rule fieldAt_error [where step = "decodeCreateNoteResponse_field textDecoder"])

lemma decodeGetNoteResponse_fieldAt:
  assumes "fieldAt (decodeGetNoteResponse_field textDecoder) n r m = Some (tag, r1, m0)"
    and "decodeGetNoteResponse_field textDecoder tag r1 m0 = Inl e"
  shows "decodeGetNoteResponse_loop textDecoder r m = Inl e"
  using decodeGetNoteResponse_loop.simps assms by (rule fieldAt_error [where step = "decodeGetNoteResponse_field textDecoder"])

lemma decodeListNotesResponse_fieldAt:
  assumes "fieldAt (decodeListNotesResponse_field textDecoder) n r m = Some (tag, r1, m0)"
    and "decodeListNotesResponse_field textDecoder tag r1 m0 = Inl e"
  shows "decodeListNotesResponse_loop textDecoder r m = Inl e"
  using decodeListNotesResponse_loop.simps assms by (rule fieldAt_error [where step = "decodeListNotesResponse_field textDecoder"])

lemma decodeUpdateNoteResponse_fieldAt:
  assumes "fieldAt (decodeUpdateNoteResponse_field textDecoder) n r m = Some (tag, r1, m0)"
    and "decodeUpdateNoteResponse_field textDecoder tag r1 m0 = Inl e"
  shows "decodeUpdateNoteResponse_loop textDecoder r m = Inl e"
  using decodeUpdateNoteResponse_loop.simps assms by (rule fieldAt_error [where step = "decodeUpdateNoteResponse_field textDecoder"])

lemma decodeDeleteNoteResponse_fieldAt:
  assumes "fieldAt (decodeDeleteNoteResponse_field) n r m = Some (tag, r1, m0)"
    and "decodeDeleteNoteResponse_field tag r1 m0 = Inl e"
  shows "decodeDeleteNoteResponse_loop r m = Inl e"
  using decodeDeleteNoteResponse_loop.simps assms by (rule fieldAt_error [where step = "decodeDeleteNoteResponse_field"])

lemma decodeNoteDelta_fieldAt:
  assumes "fieldAt (decodeNoteDelta_field textDecoder) n r m = Some (tag, r1, m0)"
    and "decodeNoteDelta_field textDecoder tag r1 m0 = Inl e"
  shows "decodeNoteDelta_loop textDecoder r m = Inl e"
  using decodeNoteDelta_loop.simps assms by (rule fieldAt_error [where step = "decodeNoteDelta_field textDecoder"])

lemma decodeNoteDeleted_fieldAt:
  assumes "fieldAt (decodeNoteDeleted_field) n r m = Some (tag, r1, m0)"
    and "decodeNoteDeleted_field tag r1 m0 = Inl e"
  shows "decodeNoteDeleted_loop r m = Inl e"
  using decodeNoteDeleted_loop.simps assms by (rule fieldAt_error [where step = "decodeNoteDeleted_field"])

lemma decodeNoteEvent_fieldAt:
  assumes "fieldAt (decodeNoteEvent_field textDecoder) n r m = Some (tag, r1, m0)"
    and "decodeNoteEvent_field textDecoder tag r1 m0 = Inl e"
  shows "decodeNoteEvent_loop textDecoder r m = Inl e"
  using decodeNoteEvent_loop.simps assms by (rule fieldAt_error [where step = "decodeNoteEvent_field textDecoder"])

lemma notFiniteNonNegative_invalid: "notFiniteNonNegative v \<Longrightarrow> \<not> validInt64 v"
  by (cases v) (auto simp: notFiniteNonNegative_def validInt64_def Number_isFinite_def
      lessThanZero_def)

lemma rejectedNote_invalid: "rejectedNote m \<Longrightarrow> \<not> validNote m"
  by (auto simp: rejectedNote_def validNote_def dest: notFiniteNonNegative_invalid)

lemma rejectedNoteDelta_invalid: "rejectedNoteDelta m \<Longrightarrow> \<not> validNoteDelta m"
  by (auto simp: rejectedNoteDelta_def validNoteDelta_def dest: notFiniteNonNegative_invalid)

lemma numberToVarint_rejects:
  "notFiniteNonNegative v \<Longrightarrow> numberToVarint v = Inl (NotFiniteNonNegative v)"
  by (simp add: notFiniteNonNegative_def numberToVarint_def)

lemma writeInt64_rejects:
  "notFiniteNonNegative v \<Longrightarrow> writeInt64 k v w = Inl (NotFiniteNonNegative v)"
  by (simp add: writeInt64_def numberToVarint_rejects)

lemma readInt64_rejects:
  "readVarint r = Inr (x, r') \<Longrightarrow> MAX_SAFE_INTEGER < x \<Longrightarrow> readInt64 r = Inl (Int64ExceedsMaxSafe x)"
  by (simp add: readInt64_def)

lemma readInt64_exact:
  assumes "readInt64 r = Inr (y, r')"
  shows "\<exists>x. x \<le> MAX_SAFE_INTEGER \<and> readVarint r = Inr (x, r') \<and> y = Finite (of_nat x)"
proof -
  from assms obtain x where rv: "readVarint r = Inr (x, r')" and le: "x \<le> MAX_SAFE_INTEGER"
    and y: "y = Finite (of_nat (Number_of_bigint x))"
    by (auto simp: readInt64_def split: sum.splits if_splits)
  from le have "x < 2 ^ 53" by (simp add: MAX_SAFE_INTEGER_def)
  then have "Number_of_bigint x = x" by (rule Number_of_bigint_small)
  with rv le y show ?thesis by auto
qed

lemma nested_error:
  "readBytes r = Inr (bs', r') \<Longrightarrow> decode bs' = Inl e \<Longrightarrow> nestedFails decode r e"
  by (simp add: nestedFails_def)

text \<open>
  Claim C6. Encoding: a negative or non-finite number makes \<open>numberToVarint\<close> and
  \<open>writeInt64\<close> throw, and with them the encoder of every message that holds the number
  in an integer field, directly or in a nested message. Decoding: \<open>readInt64\<close> throws
  on a varint above \<open>Number.MAX_SAFE_INTEGER\<close> and otherwise returns the value of the
  varint itself; when the loop of a decoder meets an integer field with such a varint, or
  a nested message whose decoder throws for one, the decoder throws that error.
\<close>

theorem int64_exact_or_rejected:
  "(notFiniteNonNegative v \<longrightarrow>
      numberToVarint v = Inl (NotFiniteNonNegative v)
      \<and> writeInt64 k v w = Inl (NotFiniteNonNegative v))
   \<and> (rejectedNote n \<longrightarrow> (\<exists>e. encodeNote textEncoder n = Inl e))
   \<and> (rejectedNoteDelta nd \<longrightarrow> (\<exists>e. encodeNoteDelta textEncoder nd = Inl e))
   \<and> (notFiniteNonNegative (dnres_id dr) \<longrightarrow> (\<exists>e. encodeDeleteNoteResponse dr = Inl e))
   \<and> (notFiniteNonNegative (deleted_id dl) \<longrightarrow> (\<exists>e. encodeNoteDeleted dl = Inl e))
   \<and> (cnres_note cr = Some n \<and> rejectedNote n
      \<longrightarrow> (\<exists>e. encodeCreateNoteResponse textEncoder cr = Inl e))
   \<and> (gnres_note gr = Some n \<and> rejectedNote n
      \<longrightarrow> (\<exists>e. encodeGetNoteResponse textEncoder gr = Inl e))
   \<and> (unres_note ur = Some n \<and> rejectedNote n
      \<longrightarrow> (\<exists>e. encodeUpdateNoteResponse textEncoder ur = Inl e))
   \<and> (n \<in> set (lnres_notes lr) \<and> rejectedNote n
      \<longrightarrow> (\<exists>e. encodeListNotesResponse textEncoder lr = Inl e))
   \<and> (rejectedNote n \<longrightarrow> (\<exists>e. encodeNoteEvent textEncoder (EventCreated n) = Inl e))
   \<and> (rejectedNoteDelta nd \<longrightarrow> (\<exists>e. encodeNoteEvent textEncoder (EventUpdated nd) = Inl e))
   \<and> (notFiniteNonNegative (deleted_id dl)
      \<longrightarrow> (\<exists>e. encodeNoteEvent textEncoder (EventDeleted dl) = Inl e))
   \<and> (readVarint r = Inr (x, r') \<and> MAX_SAFE_INTEGER < x
      \<longrightarrow> readInt64 r = Inl (Int64ExceedsMaxSafe x))
   \<and> (readInt64 r = Inr (y, r')
      \<longrightarrow> (\<exists>x. x \<le> MAX_SAFE_INTEGER \<and> readVarint r = Inr (x, r') \<and> y = Finite (of_nat x)))
   \<and> (fieldAt (decodeNote_field textDecoder) i (newReader bs) noteDefault = Some (tag, r, m1)
        \<and> fieldNumber tag \<in> {1, 4, 5, 6} \<and> readVarint r = Inr (x, r') \<and> MAX_SAFE_INTEGER < x
      \<longrightarrow> decodeNote textDecoder bs = Inl (Int64ExceedsMaxSafe x))
   \<and> (fieldAt (decodeNoteDelta_field textDecoder) i (newReader bs) noteDeltaDefault
          = Some (tag, r, m2)
        \<and> fieldNumber tag \<in> {1, 4, 5} \<and> readVarint r = Inr (x, r') \<and> MAX_SAFE_INTEGER < x
      \<longrightarrow> decodeNoteDelta textDecoder bs = Inl (Int64ExceedsMaxSafe x))
   \<and> (fieldAt decodeDeleteNoteResponse_field i (newReader bs) \<lparr>dnres_id = Finite 0\<rparr>
          = Some (tag, r, m3)
        \<and> fieldNumber tag = 1 \<and> readVarint r = Inr (x, r') \<and> MAX_SAFE_INTEGER < x
      \<longrightarrow> decodeDeleteNoteResponse bs = Inl (Int64ExceedsMaxSafe x))
   \<and> (fieldAt decodeNoteDeleted_field i (newReader bs) \<lparr>deleted_id = Finite 0\<rparr>
          = Some (tag, r, m4)
        \<and> fieldNumber tag = 1 \<and> readVarint r = Inr (x, r') \<and> MAX_SAFE_INTEGER < x
      \<longrightarrow> decodeNoteDeleted bs = Inl (Int64ExceedsMaxSafe x))
   \<and> (fieldAt (decodeCreateNoteResponse_field textDecoder) i (newReader bs) \<lparr>cnres_note = None\<rparr>
          = Some (tag, r, m5)
        \<and> fieldNumber tag = 1 \<and> readBytes r = Inr (inner, r')
        \<and> decodeNote textDecoder inner = Inl (Int64ExceedsMaxSafe x)
      \<longrightarrow> decodeCreateNoteResponse textDecoder bs = Inl (Int64ExceedsMaxSafe x))
   \<and> (fieldAt (decodeGetNoteResponse_field textDecoder) i (newReader bs) \<lparr>gnres_note = None\<rparr>
          = Some (tag, r, m6)
        \<and> fieldNumber tag = 1 \<and> readBytes r = Inr (inner, r')
        \<and> decodeNote textDecoder inner = Inl (Int64ExceedsMaxSafe x)
      \<longrightarrow> decodeGetNoteResponse textDecoder bs = Inl (Int64ExceedsMaxSafe x))
   \<and> (fieldAt (decodeUpdateNoteResponse_field textDecoder) i (newReader bs) \<lparr>unres_note = None\<rparr>
          = Some (tag, r, m7)
        \<and> fieldNumber tag = 1 \<and> readBytes r = Inr (inner, r')
        \<and> decodeNote textDecoder inner = Inl (Int64ExceedsMaxSafe x)
      \<longrightarrow> decodeUpdateNoteResponse textDecoder bs = Inl (Int64ExceedsMaxSafe x))
   \<and> (fieldAt (decodeListNotesResponse_field textDecoder) i (newReader bs) \<lparr>lnres_notes = []\<rparr>
          = Some (tag, r, m8)
        \<and> fieldNumber tag = 1 \<and> readBytes r = Inr (inner, r')
        \<and> decodeNote textDecoder inner = Inl (Int64ExceedsMaxSafe x)
      \<longrightarrow> decodeListNotesResponse textDecoder bs = Inl (Int64ExceedsMaxSafe x))
   \<and> (fieldAt (decodeNoteEvent_field textDecoder) i (newReader bs) EventUndefined
          = Some (tag, r, m9)
        \<and> readBytes r = Inr (inner, r')
        \<and> (fieldNumber tag = 1 \<and> decodeNote textDecoder inner = Inl (Int64ExceedsMaxSafe x)
           \<or> fieldNumber tag = 2
              \<and> decodeNoteDelta textDecoder inner = Inl (Int64ExceedsMaxSafe x)
           \<or> fieldNumber tag = 3 \<and> decodeNoteDeleted inner = Inl (Int64ExceedsMaxSafe x))
      \<longrightarrow> decodeNoteEvent textDecoder bs = Inl (Int64ExceedsMaxSafe x))"
proof -
  let ?big = "Int64ExceedsMaxSafe x"
  have e1: "notFiniteNonNegative v \<longrightarrow>
      numberToVarint v = Inl (NotFiniteNonNegative v)
      \<and> writeInt64 k v w = Inl (NotFiniteNonNegative v)"
    by (simp add: numberToVarint_rejects writeInt64_rejects)
  have e2: "rejectedNote n \<longrightarrow> (\<exists>e. encodeNote textEncoder n = Inl e)"
    by (auto dest: rejectedNote_invalid intro: encodeNote_invalid)
  have e3: "rejectedNoteDelta nd \<longrightarrow> (\<exists>e. encodeNoteDelta textEncoder nd = Inl e)"
    by (auto dest: rejectedNoteDelta_invalid intro: encodeNoteDelta_invalid)
  have e4: "notFiniteNonNegative (dnres_id dr) \<longrightarrow> (\<exists>e. encodeDeleteNoteResponse dr = Inl e)"
    by (auto dest: notFiniteNonNegative_invalid intro: encodeDeleteNoteResponse_invalid)
  have e5: "notFiniteNonNegative (deleted_id dl) \<longrightarrow> (\<exists>e. encodeNoteDeleted dl = Inl e)"
    by (auto dest: notFiniteNonNegative_invalid intro: encodeNoteDeleted_invalid)
  have e6: "cnres_note cr = Some n \<and> rejectedNote n
      \<longrightarrow> (\<exists>e. encodeCreateNoteResponse textEncoder cr = Inl e)"
    by (auto dest!: rejectedNote_invalid intro!: encodeCreateNoteResponse_invalid
        simp: validOptNote_def)
  have e7: "gnres_note gr = Some n \<and> rejectedNote n
      \<longrightarrow> (\<exists>e. encodeGetNoteResponse textEncoder gr = Inl e)"
    by (auto dest!: rejectedNote_invalid intro!: encodeGetNoteResponse_invalid
        simp: validOptNote_def)
  have e8: "unres_note ur = Some n \<and> rejectedNote n
      \<longrightarrow> (\<exists>e. encodeUpdateNoteResponse textEncoder ur = Inl e)"
    by (auto dest!: rejectedNote_invalid intro!: encodeUpdateNoteResponse_invalid
        simp: validOptNote_def)
  have e9: "n \<in> set (lnres_notes lr) \<and> rejectedNote n
      \<longrightarrow> (\<exists>e. encodeListNotesResponse textEncoder lr = Inl e)"
    by (auto dest!: rejectedNote_invalid intro!: encodeListNotesResponse_invalid
        simp: list_all_iff)
  have e10: "rejectedNote n \<longrightarrow> (\<exists>e. encodeNoteEvent textEncoder (EventCreated n) = Inl e)"
    by (auto dest!: rejectedNote_invalid intro!: encodeNoteEvent_invalid
        simp: validNoteEvent_def)
  have e11: "rejectedNoteDelta nd
      \<longrightarrow> (\<exists>e. encodeNoteEvent textEncoder (EventUpdated nd) = Inl e)"
    by (auto dest!: rejectedNoteDelta_invalid intro!: encodeNoteEvent_invalid
        simp: validNoteEvent_def)
  have e12: "notFiniteNonNegative (deleted_id dl)
      \<longrightarrow> (\<exists>e. encodeNoteEvent textEncoder (EventDeleted dl) = Inl e)"
    by (auto dest!: notFiniteNonNegative_invalid intro!: encodeNoteEvent_invalid
        simp: validNoteEvent_def)
  have d1: "readVarint r = Inr (x, r') \<and> MAX_SAFE_INTEGER < x \<longrightarrow> readInt64 r = Inl ?big"
    by (simp add: readInt64_rejects)
  have d2: "readInt64 r = Inr (y, r')
      \<longrightarrow> (\<exists>x. x \<le> MAX_SAFE_INTEGER \<and> readVarint r = Inr (x, r') \<and> y = Finite (of_nat x))"
    by (rule impI) (rule readInt64_exact)
  have d3: "fieldAt (decodeNote_field textDecoder) i (newReader bs) noteDefault = Some (tag, r, m1)
        \<and> fieldNumber tag \<in> {1, 4, 5, 6} \<and> readVarint r = Inr (x, r') \<and> MAX_SAFE_INTEGER < x
      \<longrightarrow> decodeNote textDecoder bs = Inl ?big"
  proof (rule impI, elim conjE)
    assume at: "fieldAt (decodeNote_field textDecoder) i (newReader bs) noteDefault
                  = Some (tag, r, m1)"
      and k: "fieldNumber tag \<in> {1, 4, 5, 6}"
      and rv: "readVarint r = Inr (x, r')" and big: "MAX_SAFE_INTEGER < x"
    from rv big have "readInt64 r = Inl ?big" by (rule readInt64_rejects)
    with k have "decodeNote_field textDecoder tag r m1 = Inl ?big"
      by (simp add: decodeNote_field_fails)
    with at show "decodeNote textDecoder bs = Inl ?big"
      unfolding decodeNote_def noteDefault_def [symmetric] by (rule decodeNote_fieldAt)
  qed
  have d4: "fieldAt (decodeNoteDelta_field textDecoder) i (newReader bs) noteDeltaDefault
          = Some (tag, r, m2)
        \<and> fieldNumber tag \<in> {1, 4, 5} \<and> readVarint r = Inr (x, r') \<and> MAX_SAFE_INTEGER < x
      \<longrightarrow> decodeNoteDelta textDecoder bs = Inl ?big"
  proof (rule impI, elim conjE)
    assume at: "fieldAt (decodeNoteDelta_field textDecoder) i (newReader bs) noteDeltaDefault
                  = Some (tag, r, m2)"
      and k: "fieldNumber tag \<in> {1, 4, 5}"
      and rv: "readVarint r = Inr (x, r')" and big: "MAX_SAFE_INTEGER < x"
    from rv big have "readInt64 r = Inl ?big" by (rule readInt64_rejects)
    with k have "decodeNoteDelta_field textDecoder tag r m2 = Inl ?big"
      by (simp add: decodeNoteDelta_field_fails)
    with at show "decodeNoteDelta textDecoder bs = Inl ?big"
      unfolding decodeNoteDelta_def noteDeltaDefault_def [symmetric]
      by (rule decodeNoteDelta_fieldAt)
  qed
  have d5: "fieldAt decodeDeleteNoteResponse_field i (newReader bs) \<lparr>dnres_id = Finite 0\<rparr>
          = Some (tag, r, m3)
        \<and> fieldNumber tag = 1 \<and> readVarint r = Inr (x, r') \<and> MAX_SAFE_INTEGER < x
      \<longrightarrow> decodeDeleteNoteResponse bs = Inl ?big"
  proof (rule impI, elim conjE)
    assume at: "fieldAt decodeDeleteNoteResponse_field i (newReader bs) \<lparr>dnres_id = Finite 0\<rparr>
                  = Some (tag, r, m3)"
      and k: "fieldNumber tag = 1"
      and rv: "readVarint r = Inr (x, r')" and big: "MAX_SAFE_INTEGER < x"
    from rv big have "readInt64 r = Inl ?big" by (rule readInt64_rejects)
    with k have "decodeDeleteNoteResponse_field tag r m3 = Inl ?big"
      by (simp add: decodeDeleteNoteResponse_field_fails)
    with at show "decodeDeleteNoteResponse bs = Inl ?big"
      unfolding decodeDeleteNoteResponse_def by (rule decodeDeleteNoteResponse_fieldAt)
  qed
  have d6: "fieldAt decodeNoteDeleted_field i (newReader bs) \<lparr>deleted_id = Finite 0\<rparr>
          = Some (tag, r, m4)
        \<and> fieldNumber tag = 1 \<and> readVarint r = Inr (x, r') \<and> MAX_SAFE_INTEGER < x
      \<longrightarrow> decodeNoteDeleted bs = Inl ?big"
  proof (rule impI, elim conjE)
    assume at: "fieldAt decodeNoteDeleted_field i (newReader bs) \<lparr>deleted_id = Finite 0\<rparr>
                  = Some (tag, r, m4)"
      and k: "fieldNumber tag = 1"
      and rv: "readVarint r = Inr (x, r')" and big: "MAX_SAFE_INTEGER < x"
    from rv big have "readInt64 r = Inl ?big" by (rule readInt64_rejects)
    with k have "decodeNoteDeleted_field tag r m4 = Inl ?big"
      by (simp add: decodeNoteDeleted_field_fails)
    with at show "decodeNoteDeleted bs = Inl ?big"
      unfolding decodeNoteDeleted_def by (rule decodeNoteDeleted_fieldAt)
  qed
  have d7: "fieldAt (decodeCreateNoteResponse_field textDecoder) i (newReader bs)
          \<lparr>cnres_note = None\<rparr> = Some (tag, r, m5)
        \<and> fieldNumber tag = 1 \<and> readBytes r = Inr (inner, r')
        \<and> decodeNote textDecoder inner = Inl ?big
      \<longrightarrow> decodeCreateNoteResponse textDecoder bs = Inl ?big"
  proof (rule impI, elim conjE)
    assume at: "fieldAt (decodeCreateNoteResponse_field textDecoder) i (newReader bs)
          \<lparr>cnres_note = None\<rparr> = Some (tag, r, m5)"
      and k: "fieldNumber tag = 1"
      and rb: "readBytes r = Inr (inner, r')" and inner: "decodeNote textDecoder inner = Inl ?big"
    from rb inner have "nestedFails (decodeNote textDecoder) r ?big" by (rule nested_error)
    with k have "decodeCreateNoteResponse_field textDecoder tag r m5 = Inl ?big"
      by (simp add: decodeCreateNoteResponse_field_fails)
    with at show "decodeCreateNoteResponse textDecoder bs = Inl ?big"
      unfolding decodeCreateNoteResponse_def by (rule decodeCreateNoteResponse_fieldAt)
  qed
  have d8: "fieldAt (decodeGetNoteResponse_field textDecoder) i (newReader bs)
          \<lparr>gnres_note = None\<rparr> = Some (tag, r, m6)
        \<and> fieldNumber tag = 1 \<and> readBytes r = Inr (inner, r')
        \<and> decodeNote textDecoder inner = Inl ?big
      \<longrightarrow> decodeGetNoteResponse textDecoder bs = Inl ?big"
  proof (rule impI, elim conjE)
    assume at: "fieldAt (decodeGetNoteResponse_field textDecoder) i (newReader bs)
          \<lparr>gnres_note = None\<rparr> = Some (tag, r, m6)"
      and k: "fieldNumber tag = 1"
      and rb: "readBytes r = Inr (inner, r')" and inner: "decodeNote textDecoder inner = Inl ?big"
    from rb inner have "nestedFails (decodeNote textDecoder) r ?big" by (rule nested_error)
    with k have "decodeGetNoteResponse_field textDecoder tag r m6 = Inl ?big"
      by (simp add: decodeGetNoteResponse_field_fails)
    with at show "decodeGetNoteResponse textDecoder bs = Inl ?big"
      unfolding decodeGetNoteResponse_def by (rule decodeGetNoteResponse_fieldAt)
  qed
  have d9: "fieldAt (decodeUpdateNoteResponse_field textDecoder) i (newReader bs)
          \<lparr>unres_note = None\<rparr> = Some (tag, r, m7)
        \<and> fieldNumber tag = 1 \<and> readBytes r = Inr (inner, r')
        \<and> decodeNote textDecoder inner = Inl ?big
      \<longrightarrow> decodeUpdateNoteResponse textDecoder bs = Inl ?big"
  proof (rule impI, elim conjE)
    assume at: "fieldAt (decodeUpdateNoteResponse_field textDecoder) i (newReader bs)
          \<lparr>unres_note = None\<rparr> = Some (tag, r, m7)"
      and k: "fieldNumber tag = 1"
      and rb: "readBytes r = Inr (inner, r')" and inner: "decodeNote textDecoder inner = Inl ?big"
    from rb inner have "nestedFails (decodeNote textDecoder) r ?big" by (rule nested_error)
    with k have "decodeUpdateNoteResponse_field textDecoder tag r m7 = Inl ?big"
      by (simp add: decodeUpdateNoteResponse_field_fails)
    with at show "decodeUpdateNoteResponse textDecoder bs = Inl ?big"
      unfolding decodeUpdateNoteResponse_def by (rule decodeUpdateNoteResponse_fieldAt)
  qed
  have d10: "fieldAt (decodeListNotesResponse_field textDecoder) i (newReader bs)
          \<lparr>lnres_notes = []\<rparr> = Some (tag, r, m8)
        \<and> fieldNumber tag = 1 \<and> readBytes r = Inr (inner, r')
        \<and> decodeNote textDecoder inner = Inl ?big
      \<longrightarrow> decodeListNotesResponse textDecoder bs = Inl ?big"
  proof (rule impI, elim conjE)
    assume at: "fieldAt (decodeListNotesResponse_field textDecoder) i (newReader bs)
          \<lparr>lnres_notes = []\<rparr> = Some (tag, r, m8)"
      and k: "fieldNumber tag = 1"
      and rb: "readBytes r = Inr (inner, r')" and inner: "decodeNote textDecoder inner = Inl ?big"
    from rb inner have "nestedFails (decodeNote textDecoder) r ?big" by (rule nested_error)
    with k have "decodeListNotesResponse_field textDecoder tag r m8 = Inl ?big"
      by (simp add: decodeListNotesResponse_field_fails)
    with at show "decodeListNotesResponse textDecoder bs = Inl ?big"
      unfolding decodeListNotesResponse_def by (rule decodeListNotesResponse_fieldAt)
  qed
  have d11: "fieldAt (decodeNoteEvent_field textDecoder) i (newReader bs) EventUndefined
          = Some (tag, r, m9)
        \<and> readBytes r = Inr (inner, r')
        \<and> (fieldNumber tag = 1 \<and> decodeNote textDecoder inner = Inl ?big
           \<or> fieldNumber tag = 2 \<and> decodeNoteDelta textDecoder inner = Inl ?big
           \<or> fieldNumber tag = 3 \<and> decodeNoteDeleted inner = Inl ?big)
      \<longrightarrow> decodeNoteEvent textDecoder bs = Inl ?big"
  proof (rule impI, elim conjE)
    assume at: "fieldAt (decodeNoteEvent_field textDecoder) i (newReader bs) EventUndefined
          = Some (tag, r, m9)"
      and rb: "readBytes r = Inr (inner, r')"
      and member: "fieldNumber tag = 1 \<and> decodeNote textDecoder inner = Inl ?big
           \<or> fieldNumber tag = 2 \<and> decodeNoteDelta textDecoder inner = Inl ?big
           \<or> fieldNumber tag = 3 \<and> decodeNoteDeleted inner = Inl ?big"
    from rb member have "decodeNoteEvent_field textDecoder tag r m9 = Inl ?big"
      by (auto simp: decodeNoteEvent_field_fails nestedFails_def)
    with at show "decodeNoteEvent textDecoder bs = Inl ?big"
      unfolding decodeNoteEvent_def by (rule decodeNoteEvent_fieldAt)
  qed
  show ?thesis
    by (intro conjI e1 e2 e3 e4 e5 e6 e7 e8 e9 e10 e11 e12 d1 d2 d3 d4 d5 d6 d7 d8 d9 d10 d11)
qed

text \<open>
  \<open>NaN\<close>, a note with version \<open>-1\<close>, and a note whose id is the varint \<open>2^53\<close>.
\<close>

abbreviation bigIdBytes :: "byte list" where
  "bigIdBytes \<equiv> [8, 128, 128, 128, 128, 128, 128, 128, 16]"

lemma bigId_field:
  "fieldAt (decodeNote_field asciiDecode) 0 (newReader bigIdBytes) noteDefault
   = Some (\<lparr>fieldNumber = 1, wireType = 0\<rparr>, \<lparr>payload = bigIdBytes, offset = 1\<rparr>, noteDefault)"
  by (simp add: fieldAt_def reader_eval split del: if_split)

lemma bigId_varint:
  "readVarint \<lparr>payload = bigIdBytes, offset = 1\<rparr>
   = Inr (9007199254740992, \<lparr>payload = bigIdBytes, offset = 9\<rparr>)"
  by (simp add: reader_eval split del: if_split)

lemma negative_version: "rejectedNote (exNote\<lparr>note_version := Finite (- 1)\<rparr>)"
  by (simp add: rejectedNote_def notFiniteNonNegative_def Number_isFinite_def lessThanZero_def)

theorem int64_exact_or_rejected_witness:
  "numberToVarint NaN = Inl (NotFiniteNonNegative NaN)
   \<and> (\<exists>e. encodeNote asciiEncode (exNote\<lparr>note_version := Finite (- 1)\<rparr>) = Inl e)
   \<and> decodeNote asciiDecode [8, 128, 128, 128, 128, 128, 128, 128, 16]
       = Inl (Int64ExceedsMaxSafe 9007199254740992)"
proof -
  have nan: "notFiniteNonNegative NaN"
    by (simp add: notFiniteNonNegative_def Number_isFinite_def)
  from int64_exact_or_rejected [where v = NaN] nan
  have a: "numberToVarint NaN = Inl (NotFiniteNonNegative NaN)" by simp
  from int64_exact_or_rejected [where n = "exNote\<lparr>note_version := Finite (- 1)\<rparr>"
      and textEncoder = asciiEncode] negative_version
  have b: "\<exists>e. encodeNote asciiEncode (exNote\<lparr>note_version := Finite (- 1)\<rparr>) = Inl e"
    by simp
  from int64_exact_or_rejected [where textDecoder = asciiDecode and i = 0
      and bs = bigIdBytes and tag = "\<lparr>fieldNumber = 1, wireType = 0\<rparr>"
      and r = "\<lparr>payload = bigIdBytes, offset = 1\<rparr>" and ?m1.0 = noteDefault
      and x = 9007199254740992 and r' = "\<lparr>payload = bigIdBytes, offset = 9\<rparr>"]
    bigId_field bigId_varint
  have c: "decodeNote asciiDecode bigIdBytes = Inl (Int64ExceedsMaxSafe 9007199254740992)"
    by (simp add: MAX_SAFE_INTEGER_def)
  from a b c show ?thesis by simp
qed

section \<open>Properties of the cache reconciler\<close>

subsection \<open>Sorting\<close>

lemma mset_insertBy: "mset (insertBy cmp x ys) = add_mset x (mset ys)"
  by (induction ys) auto

lemma mset_array_sort: "mset (array_sort cmp xs) = mset xs"
  by (induction xs) (auto simp: array_sort_def mset_insertBy)

lemma set_insertBy: "set (insertBy cmp x ys) = insert x (set ys)"
  by (induction ys) auto

lemma mset_sortNotes: "mset (sortNotes xs) = mset xs"
  by (simp add: sortNotes_def mset_array_sort)

lemma set_sortNotes: "set (sortNotes xs) = set xs"
  by (metis mset_sortNotes set_mset_mset)

lemma map_id_sortNotes: "mset (map pb_id (sortNotes xs)) = mset (map pb_id xs)"
  by (metis mset_map mset_sortNotes)

lemma distinct_ids_sortNotes:
  "distinct (map pb_id (sortNotes xs)) = distinct (map pb_id xs)"
  by (metis map_id_sortNotes mset_eq_imp_distinct_iff)

lemma compareNotes_pos: "compareNotes a b > 0 \<longleftrightarrow> notesBefore b a"
  by (auto simp: compareNotes_def notesBefore_def)

lemma compareNotes_nonpos:
  "pb_id a \<noteq> pb_id b \<Longrightarrow> \<not> compareNotes a b > 0 \<longleftrightarrow> notesBefore a b"
  by (auto simp: compareNotes_def notesBefore_def)

lemma notesBefore_trans: "notesBefore a b \<Longrightarrow> notesBefore b c \<Longrightarrow> notesBefore a c"
  by (auto simp: notesBefore_def)

lemma notesBefore_asym: "notesBefore a b \<Longrightarrow> \<not> notesBefore b a"
  by (auto simp: notesBefore_def)

lemma notesBefore_irrefl: "\<not> notesBefore a a"
  by (auto simp: notesBefore_def)

lemma sorted_insertBy:
  "sorted_wrt notesBefore ys \<Longrightarrow> \<forall>y\<in>set ys. pb_id y \<noteq> pb_id x
   \<Longrightarrow> sorted_wrt notesBefore (insertBy compareNotes x ys)"
proof (induction ys)
  case Nil
  then show ?case by simp
next
  case (Cons y ys)
  show ?case
  proof (cases "compareNotes x y > 0")
    case True
    then have "notesBefore y x" by (simp add: compareNotes_pos)
    with Cons show ?thesis using True by (auto simp: set_insertBy)
  next
    case False
    with Cons.prems have "notesBefore x y" by (simp add: compareNotes_nonpos)
    with Cons.prems show ?thesis using False by (auto intro: notesBefore_trans)
  qed
qed

lemma sorted_sortNotes:
  "distinct (map pb_id xs) \<Longrightarrow> sorted_wrt notesBefore (sortNotes xs)"
proof (induction xs)
  case Nil
  then show ?case by (simp add: sortNotes_def array_sort_def)
next
  case (Cons x xs)
  have step: "sortNotes (x # xs) = insertBy compareNotes x (sortNotes xs)"
    by (simp add: sortNotes_def array_sort_def)
  have "pb_id x \<notin> pb_id ` set xs"
    using Cons.prems by simp
  then have "\<forall>y\<in>set (sortNotes xs). pb_id y \<noteq> pb_id x"
    unfolding set_sortNotes by (metis imageI)
  moreover have "sorted_wrt notesBefore (sortNotes xs)"
    using Cons by simp
  ultimately show ?case
    unfolding step by (rule sorted_insertBy [rotated])
qed

lemma sorted_notes_unique:
  "sorted_wrt notesBefore xs \<Longrightarrow> sorted_wrt notesBefore ys \<Longrightarrow> set xs = set ys \<Longrightarrow> xs = ys"
proof (induction xs arbitrary: ys)
  case Nil
  then show ?case by simp
next
  case (Cons x xs)
  then obtain y ys' where ys: "ys = y # ys'" by (cases ys) auto
  have xy: "x = y"
  proof (rule ccontr)
    assume "x \<noteq> y"
    with Cons.prems ys have "x \<in> set ys'" "y \<in> set xs" by auto
    with Cons.prems ys have "notesBefore y x" "notesBefore x y" by auto
    then show False using notesBefore_asym by blast
  qed
  have "x \<notin> set xs" "y \<notin> set ys'"
    using Cons.prems ys notesBefore_irrefl by auto
  with Cons.prems ys xy have "set xs = set ys'" by auto
  with Cons ys xy show ?case by auto
qed


lemma findIndex_ge: "-1 \<le> findIndex P xs"
  by (induction xs) (auto simp: Let_def)

lemma findIndex_none: "findIndex P xs = -1 \<longleftrightarrow> (\<forall>x\<in>set xs. \<not> P x)"
proof (induction xs)
  case Nil
  then show ?case by simp
next
  case (Cons x xs)
  have "findIndex P xs + 1 \<noteq> -1"
    using findIndex_ge [of P xs] by arith
  with Cons show ?case by (auto simp: Let_def)
qed

lemma findIndex_nonneg: "findIndex P xs \<noteq> -1 \<Longrightarrow> 0 \<le> findIndex P xs"
  using findIndex_ge [of P xs] by arith

lemma findIndex_some:
  "findIndex P xs \<noteq> -1 \<Longrightarrow> nat (findIndex P xs) < length xs \<and> P (xs ! nat (findIndex P xs))"
proof (induction xs)
  case Nil
  then show ?case by simp
next
  case (Cons x xs)
  show ?case
  proof (cases "P x")
    case True
    then show ?thesis by simp
  next
    case False
    with Cons.prems have ne: "findIndex P xs \<noteq> -1" by (auto simp: Let_def)
    then have "0 \<le> findIndex P xs" by (rule findIndex_nonneg)
    then have "nat (findIndex P xs + 1) = Suc (nat (findIndex P xs))" by simp
    with Cons.IH [OF ne] False ne show ?thesis by (simp add: Let_def)
  qed
qed

lemma ids_list_update:
  "i < length notes \<Longrightarrow> pb_id (notes ! i) = pb_id note
   \<Longrightarrow> map pb_id (notes[i := note]) = map pb_id notes"
  by (simp add: map_update list_update_same_conv)

lemma distinct_ids_imp_distinct: "distinct (map pb_id notes) \<Longrightarrow> distinct notes"
  by (rule distinct_map [THEN iffD1, THEN conjunct1])

lemma same_id_same_note:
  "distinct (map pb_id notes) \<Longrightarrow> a \<in> set notes \<Longrightarrow> b \<in> set notes
   \<Longrightarrow> pb_id a = pb_id b \<Longrightarrow> a = b"
  by (meson distinct_map inj_onD)

lemma distinct_ids_upsertNote:
  "distinct (map pb_id notes) \<Longrightarrow> distinct (map pb_id (upsertNote notes note))"
proof (cases "findIndex (\<lambda>candidate. pb_id candidate = pb_id note) notes = -1")
  case True
  assume d: "distinct (map pb_id notes)"
  from True have "pb_id note \<notin> pb_id ` set notes"
    by (auto simp: findIndex_none)
  with d True show ?thesis
    by (simp add: upsertNote_def distinct_ids_sortNotes)
next
  case False
  assume d: "distinct (map pb_id notes)"
  from findIndex_some [OF False] d False show ?thesis
    by (simp add: upsertNote_def distinct_ids_sortNotes ids_list_update)
qed

lemma set_upsertNote:
  assumes "distinct (map pb_id notes)"
  shows "set (upsertNote notes note)
         = insert note {c \<in> set notes. pb_id c \<noteq> pb_id note}"
proof (cases "findIndex (\<lambda>candidate. pb_id candidate = pb_id note) notes = -1")
  case True
  then have "{c \<in> set notes. pb_id c \<noteq> pb_id note} = set notes"
    by (auto simp: findIndex_none)
  with True show ?thesis
    by (simp add: upsertNote_def set_sortNotes)
next
  case False
  let ?i = "nat (findIndex (\<lambda>candidate. pb_id candidate = pb_id note) notes)"
  from findIndex_some [OF False]
  have i: "?i < length notes" and same: "pb_id (notes ! ?i) = pb_id note" by auto
  have "set (notes[?i := note]) = insert note (set notes - {notes ! ?i})"
    using assms i by (simp add: set_update_distinct distinct_ids_imp_distinct)
  moreover have "set notes - {notes ! ?i} = {c \<in> set notes. pb_id c \<noteq> pb_id note}"
  proof -
    have "notes ! ?i \<in> set notes" using i by simp
    then show ?thesis
      using same same_id_same_note [OF assms] by auto
  qed
  ultimately show ?thesis using False
    by (simp add: upsertNote_def set_sortNotes)
qed

lemma sorted_upsertNote:
  "distinct (map pb_id notes) \<Longrightarrow> sorted_wrt notesBefore (upsertNote notes note)"
proof -
  assume d: "distinct (map pb_id notes)"
  have "distinct (map pb_id (upsertNote notes note))"
    using d by (rule distinct_ids_upsertNote)
  then show ?thesis
    by (auto simp: upsertNote_def Let_def distinct_ids_sortNotes intro: sorted_sortNotes
        split: if_splits)
qed

lemma distinct_ids_foldl_upsert:
  "distinct (map pb_id c) \<Longrightarrow> distinct (map pb_id (foldl upsertNote c ns))"
  by (induction ns arbitrary: c) (auto simp: distinct_ids_upsertNote)

lemma sorted_foldl_upsert:
  "distinct (map pb_id c) \<Longrightarrow> ns \<noteq> [] \<Longrightarrow> sorted_wrt notesBefore (foldl upsertNote c ns)"
proof (induction ns rule: rev_induct)
  case Nil
  then show ?case by simp
next
  case (snoc n ns)
  then show ?case
    by (simp add: sorted_upsertNote distinct_ids_foldl_upsert)
qed

lemma set_foldl_upsert:
  "distinct (map pb_id c) \<Longrightarrow> distinct (map pb_id ns)
   \<Longrightarrow> set (foldl upsertNote c ns)
       = {x \<in> set c. pb_id x \<notin> pb_id ` set ns} \<union> set ns"
proof (induction ns arbitrary: c)
  case Nil
  then show ?case by simp
next
  case (Cons n ns)
  have d1: "distinct (map pb_id (upsertNote c n))"
    using Cons.prems(1) by (rule distinct_ids_upsertNote)
  have d2: "distinct (map pb_id ns)" and fresh: "pb_id n \<notin> pb_id ` set ns"
    using Cons.prems(2) by auto
  have "set (foldl upsertNote c (n # ns))
        = {x \<in> set (upsertNote c n). pb_id x \<notin> pb_id ` set ns} \<union> set ns"
    using Cons.IH [OF d1 d2] by simp
  also have "\<dots> = {x \<in> set c. pb_id x \<notin> pb_id ` set (n # ns)} \<union> set (n # ns)"
    using fresh by (auto simp: set_upsertNote [OF Cons.prems(1)])
  finally show ?case .
qed

lemma foldl_upsert_perm:
  assumes c: "distinct (map pb_id c)" and ns: "distinct (map pb_id ns)"
    and perm: "mset ms = mset ns"
  shows "foldl upsertNote c ms = foldl upsertNote c ns"
proof (cases "ns = []")
  case True
  with perm show ?thesis by simp
next
  case False
  with perm have ms_ne: "ms \<noteq> []" by auto
  have "mset (map pb_id ms) = mset (map pb_id ns)"
    using perm by (metis mset_map)
  then have ms: "distinct (map pb_id ms)"
    using ns by (metis mset_eq_imp_distinct_iff)
  have sets: "set ms = set ns" using perm by (rule mset_eq_setD)
  show ?thesis
  proof (rule sorted_notes_unique)
    show "sorted_wrt notesBefore (foldl upsertNote c ms)"
      using c ms_ne by (rule sorted_foldl_upsert)
    show "sorted_wrt notesBefore (foldl upsertNote c ns)"
      using c False by (rule sorted_foldl_upsert)
    show "set (foldl upsertNote c ms) = set (foldl upsertNote c ns)"
      by (simp add: set_foldl_upsert [OF c ms] set_foldl_upsert [OF c ns] sets)
  qed
qed


lemma find_by_id:
  "distinct (map pb_id notes) \<Longrightarrow> x \<in> set notes
   \<Longrightarrow> find (\<lambda>candidate. pb_id candidate = pb_id x) notes = Some x"
  by (induction "notes") force+

lemma filter_by_key:
  "distinct (map f xs) \<Longrightarrow> x \<in> set xs \<Longrightarrow> filter (\<lambda>candidate. f candidate = f x) xs = [x]"
proof (induction xs)
  case Nil
  then show ?case by simp
next
  case (Cons y ys)
  from Cons.prems(1) have "f y \<notin> f ` set ys" by simp
  then have fresh: "\<And>c. c \<in> set ys \<Longrightarrow> f c \<noteq> f y" by (metis imageI)
  show ?case
  proof (cases "x = y")
    case True
    have "filter (\<lambda>candidate. f candidate = f y) ys = []"
      using fresh by (simp add: filter_empty_conv)
    with True show ?thesis by simp
  next
    case False
    with Cons.prems have "x \<in> set ys" by simp
    moreover from this have "f y \<noteq> f x" using fresh by metis
    ultimately show ?thesis using Cons by simp
  qed
qed

lemma filter_by_id:
  "distinct (map pb_id notes) \<Longrightarrow> x \<in> set notes
   \<Longrightarrow> filter (\<lambda>candidate. pb_id candidate = pb_id x) notes = [x]"
  by (rule filter_by_key)

lemma distinct_ids_removeNote:
  "distinct (map pb_id notes) \<Longrightarrow> distinct (map pb_id (removeNote notes noteId))"
  by (simp add: removeNote_def distinct_map_filter)

lemma distinct_ids_applyDelta:
  "distinct (map pb_id notes) \<Longrightarrow> distinct (map pb_id (applyDelta notes delta))"
  by (simp add: applyDelta_def distinct_ids_upsertNote split: option.split)

text \<open>
  Claim C8. \<open>remove(id)\<close> deletes the note with that id when it is present and changes
  nothing when it is absent; it never fails (the function is total), and removing the same
  id a second time returns the collection the first removal returned. The notes that stay
  keep their order: removal distributes over concatenation.
\<close>

theorem removeNote_idempotent:
  "set (removeNote notes noteId) = {n \<in> set notes. pb_id n \<noteq> noteId}
   \<and> noteId \<notin> pb_id ` set (removeNote notes noteId)
   \<and> (noteId \<notin> pb_id ` set notes \<longrightarrow> removeNote notes noteId = notes)
   \<and> removeNote (removeNote notes noteId) noteId = removeNote notes noteId
   \<and> (\<forall>xs ys. removeNote (xs @ ys) noteId = removeNote xs noteId @ removeNote ys noteId)"
proof -
  have "noteId \<notin> pb_id ` set notes \<Longrightarrow> removeNote notes noteId = notes"
    unfolding removeNote_def by (induction "notes") auto
  then show ?thesis
    by (auto simp: removeNote_def)
qed

text \<open>Removing id 1 from a two-note cache, then removing it again.\<close>

theorem removeNote_idempotent_witness:
  "removeNote [\<lparr>pb_id = 1, pb_title = ''A'', pb_body = ''B'', createdAtUnixMs = 0,
                  updatedAtUnixMs = 0, pb_version = 1\<rparr>,
               \<lparr>pb_id = 2, pb_title = ''C'', pb_body = ''D'', createdAtUnixMs = 0,
                  updatedAtUnixMs = 0, pb_version = 1\<rparr>] 1
   = [\<lparr>pb_id = 2, pb_title = ''C'', pb_body = ''D'', createdAtUnixMs = 0,
        updatedAtUnixMs = 0, pb_version = 1\<rparr>]
   \<and> removeNote [\<lparr>pb_id = 2, pb_title = ''C'', pb_body = ''D'', createdAtUnixMs = 0,
        updatedAtUnixMs = 0, pb_version = 1\<rparr>] 1
   = [\<lparr>pb_id = 2, pb_title = ''C'', pb_body = ''D'', createdAtUnixMs = 0,
        updatedAtUnixMs = 0, pb_version = 1\<rparr>]"
  using removeNote_idempotent [of "[\<lparr>pb_id = 2, pb_title = ''C'', pb_body = ''D'', createdAtUnixMs = 0,
        updatedAtUnixMs = 0, pb_version = 1\<rparr>]" 1]
  by (simp add: removeNote_def)

text \<open>
  Claim C9. On a collection in which no two notes share an id, \<open>upsertNote\<close>,
  \<open>applyDelta\<close> and \<open>removeNote\<close> each return a collection in which no two notes share
  an id, and the result of \<open>upsertNote\<close> holds exactly one note with the upserted id.
\<close>

theorem reconciler_preserves_unique_ids:
  assumes "distinct (map pb_id notes)"
  shows "distinct (map pb_id (upsertNote notes note))
         \<and> distinct (map pb_id (applyDelta notes delta))
         \<and> distinct (map pb_id (removeNote notes noteId))
         \<and> length (filter (\<lambda>candidate. pb_id candidate = pb_id note) (upsertNote notes note)) = 1"
proof -
  have d: "distinct (map pb_id (upsertNote notes note))"
    using assms by (rule distinct_ids_upsertNote)
  have "note \<in> set (upsertNote notes note)"
    by (simp add: set_upsertNote [OF assms])
  with d have "filter (\<lambda>candidate. pb_id candidate = pb_id note) (upsertNote notes note) = [note]"
    by (rule filter_by_id)
  with d assms show ?thesis
    by (simp add: distinct_ids_applyDelta distinct_ids_removeNote)
qed


lemmas reconciler_defs =
  upsertNote_def sortNotes_def array_sort_def compareNotes_def applyDelta_def removeNote_def

text \<open>Replacing a cached note and inserting a new one into a two-note cache.\<close>

theorem reconciler_preserves_unique_ids_witness:
  "distinct (map pb_id [ex_a, ex_b])
   \<and> map pb_id (upsertNote [ex_a, ex_b] (ex_a\<lparr>updatedAtUnixMs := 9\<rparr>)) = [10, 20]
   \<and> map pb_id (upsertNote [ex_a, ex_b] ex_d) = [20, 10, 30]"
  using reconciler_preserves_unique_ids [of "[ex_a, ex_b]" ex_d]
  by (simp add: reconciler_defs)

text \<open>
  Claim C4. Notes with pairwise distinct ids, upserted one by one into a collection (itself
  with distinct ids, in particular the empty one), give the same sequence in whatever order
  they are upserted; the sequence is sorted by \<open>updatedAtUnixMs\<close> descending, ties by
  \<open>id\<close> descending, and holds the upserted notes and the old notes whose id none of them
  has. In particular three notes with timestamps 5, 5, 3 and ids 10, 20, 30 end up as
  id 20, id 10, id 30.
\<close>

theorem upsert_any_order_same_sequence:
  assumes c: "distinct (map pb_id c)" and ns: "distinct (map pb_id ns)"
    and perm: "mset ms = mset ns"
  shows "foldl upsertNote c ms = foldl upsertNote c ns
    \<and> (ns \<noteq> [] \<longrightarrow> sorted_wrt notesBefore (foldl upsertNote c ns))
    \<and> set (foldl upsertNote c ns) = {x \<in> set c. pb_id x \<notin> pb_id ` set ns} \<union> set ns
    \<and> (\<forall>a b d. pb_id a = 10 \<and> pb_id b = 20 \<and> pb_id d = 30
           \<and> updatedAtUnixMs a = 5 \<and> updatedAtUnixMs b = 5 \<and> updatedAtUnixMs d = 3
           \<and> mset ns = {#a, b, d#}
         \<longrightarrow> foldl upsertNote [] ns = [b, a, d])"
proof -
  have example: "foldl upsertNote [] ns = [b, a, d]"
    if ids: "pb_id a = 10" "pb_id b = 20" "pb_id d = 30"
      and ts: "updatedAtUnixMs a = 5" "updatedAtUnixMs b = 5" "updatedAtUnixMs d = 3"
      and m: "mset ns = {#a, b, d#}" for a b d
  proof -
    have "distinct (map pb_id [a, b, d])" using ids by simp
    moreover have "mset ns = mset [a, b, d]" using m by simp
    ultimately have "foldl upsertNote [] ns = foldl upsertNote [] [a, b, d]"
      using foldl_upsert_perm [of "[]" "[a, b, d]" ns] by simp
    also have "\<dots> = [b, a, d]"
      using ids ts by (simp add: upsertNote_def sortNotes_def array_sort_def compareNotes_def)
    finally show ?thesis .
  qed
  have "foldl upsertNote c ms = foldl upsertNote c ns"
    using c ns perm by (rule foldl_upsert_perm)
  moreover have "ns \<noteq> [] \<longrightarrow> sorted_wrt notesBefore (foldl upsertNote c ns)"
    using c by (simp add: sorted_foldl_upsert)
  moreover have "set (foldl upsertNote c ns)
                 = {x \<in> set c. pb_id x \<notin> pb_id ` set ns} \<union> set ns"
    using c ns by (rule set_foldl_upsert)
  ultimately show ?thesis using example by blast
qed

text \<open>All six insertion orders of the three notes of the example.\<close>

theorem upsert_any_order_same_sequence_witness:
  "foldl upsertNote [] [ex_a, ex_b, ex_d] = [ex_b, ex_a, ex_d]
   \<and> foldl upsertNote [] [ex_a, ex_d, ex_b] = [ex_b, ex_a, ex_d]
   \<and> foldl upsertNote [] [ex_b, ex_a, ex_d] = [ex_b, ex_a, ex_d]
   \<and> foldl upsertNote [] [ex_b, ex_d, ex_a] = [ex_b, ex_a, ex_d]
   \<and> foldl upsertNote [] [ex_d, ex_a, ex_b] = [ex_b, ex_a, ex_d]
   \<and> foldl upsertNote [] [ex_d, ex_b, ex_a] = [ex_b, ex_a, ex_d]
   \<and> sorted_wrt notesBefore [ex_b, ex_a, ex_d]"
  using upsert_any_order_same_sequence [of "[]" "[ex_a, ex_b, ex_d]" "[ex_d, ex_b, ex_a]"]
  by (simp add: upsertNote_def sortNotes_def array_sort_def compareNotes_def notesBefore_def)


lemma find_None_ids: "find (\<lambda>candidate. pb_id candidate = i) xs = None \<longleftrightarrow> i \<notin> pb_id ` set xs"
  by (induction xs) auto

text \<open>
  Claim C3. If no note of the collection has the delta's id, \<open>applyDelta\<close> returns the
  collection as it is. Otherwise it upserts a note that has the id and creation time of the
  existing note (the first with that id), the existing title and body where the delta's
  optional field is absent and the delta's value where it is present, and the delta's
  \<open>updatedAtUnixMs\<close> and \<open>version\<close> in every case. The page's copy of the function
  leaves the same collection and returns the merged note (or null). A delta on the empty
  collection leaves it empty, and the delta \<open>{id:1, body:"C", updatedAtUnixMs:2, version:2}\<close>
  turns \<open>{id:1, title:"A", body:"B"}\<close> into \<open>{id:1, title:"A", body:"C", version:2}\<close>.
\<close>

theorem applyDelta_merges_or_drops:
  "(delta_id delta \<notin> pb_id ` set notes \<longrightarrow> applyDelta notes delta = notes)
   \<and> (\<forall>existing. find (\<lambda>candidate. pb_id candidate = delta_id delta) notes = Some existing \<longrightarrow>
        (\<exists>merged. applyDelta notes delta = upsertNote notes merged
            \<and> applyDelta_page notes delta = (Some merged, upsertNote notes merged)
            \<and> pb_id merged = pb_id existing
            \<and> createdAtUnixMs merged = createdAtUnixMs existing
            \<and> pb_title merged = (case delta_title delta of None \<Rightarrow> pb_title existing | Some t \<Rightarrow> t)
            \<and> pb_body merged = (case delta_body delta of None \<Rightarrow> pb_body existing | Some b \<Rightarrow> b)
            \<and> updatedAtUnixMs merged = delta_updatedAtUnixMs delta
            \<and> pb_version merged = delta_version delta))
   \<and> (delta_id delta \<notin> pb_id ` set notes \<longrightarrow> applyDelta_page notes delta = (None, notes))
   \<and> applyDelta [] delta = []
   \<and> applyDelta
         [\<lparr>pb_id = 1, pb_title = ''A'', pb_body = ''B'', createdAtUnixMs = created,
           updatedAtUnixMs = updated, pb_version = version\<rparr>]
         \<lparr>delta_id = 1, delta_title = None, delta_body = Some ''C'',
          delta_updatedAtUnixMs = 2, delta_version = 2\<rparr>
       = [\<lparr>pb_id = 1, pb_title = ''A'', pb_body = ''C'', createdAtUnixMs = created,
            updatedAtUnixMs = 2, pb_version = 2\<rparr>]"
proof -
  have absent: "applyDelta notes delta = notes \<and> applyDelta_page notes delta = (None, notes)"
    if "delta_id delta \<notin> pb_id ` set notes"
    using that by (simp add: applyDelta_def applyDelta_page_def find_None_ids [THEN iffD2])
  have present: "\<exists>merged. applyDelta notes delta = upsertNote notes merged
            \<and> applyDelta_page notes delta = (Some merged, upsertNote notes merged)
            \<and> pb_id merged = pb_id existing
            \<and> createdAtUnixMs merged = createdAtUnixMs existing
            \<and> pb_title merged = (case delta_title delta of None \<Rightarrow> pb_title existing | Some t \<Rightarrow> t)
            \<and> pb_body merged = (case delta_body delta of None \<Rightarrow> pb_body existing | Some b \<Rightarrow> b)
            \<and> updatedAtUnixMs merged = delta_updatedAtUnixMs delta
            \<and> pb_version merged = delta_version delta"
    if "find (\<lambda>candidate. pb_id candidate = delta_id delta) notes = Some existing" for existing
    using that by (simp add: applyDelta_def applyDelta_page_def Let_def split: option.split)
  have "applyDelta [] delta = []"
    by (simp add: applyDelta_def)
  moreover have "applyDelta
         [\<lparr>pb_id = 1, pb_title = ''A'', pb_body = ''B'', createdAtUnixMs = created,
           updatedAtUnixMs = updated, pb_version = version\<rparr>]
         \<lparr>delta_id = 1, delta_title = None, delta_body = Some ''C'',
          delta_updatedAtUnixMs = 2, delta_version = 2\<rparr>
       = [\<lparr>pb_id = 1, pb_title = ''A'', pb_body = ''C'', createdAtUnixMs = created,
            updatedAtUnixMs = 2, pb_version = 2\<rparr>]"
    by (simp add: reconciler_defs)
  ultimately show ?thesis using absent present by blast
qed

text \<open>A title-only delta for a cached id, and a delta for the unknown id 999.\<close>

theorem applyDelta_merges_or_drops_witness:
  "applyDelta [ex_b, ex_a] \<lparr>delta_id = 10, delta_title = Some ''t'', delta_body = None,
                            delta_updatedAtUnixMs = 7, delta_version = 2\<rparr>
   = [\<lparr>pb_id = 10, pb_title = ''t'', pb_body = ''x'', createdAtUnixMs = 1,
        updatedAtUnixMs = 7, pb_version = 2\<rparr>, ex_b]
   \<and> applyDelta [ex_b, ex_a] \<lparr>delta_id = 999, delta_title = Some ''x'', delta_body = None,
                            delta_updatedAtUnixMs = 1, delta_version = 1\<rparr> = [ex_b, ex_a]"
  using applyDelta_merges_or_drops [of "\<lparr>delta_id = 999, delta_title = Some ''x'', delta_body = None,
                            delta_updatedAtUnixMs = 1, delta_version = 1\<rparr>" "[ex_b, ex_a]"]
  by (simp add: reconciler_defs)

text \<open>
  Claim C1 says that a delta whose version is not above the cached version leaves the
  entity unchanged. The code compares no versions: the cache holds id 10 at version 1, a
  delta for id 10 with version 1 and an older timestamp arrives, and the cached title,
  timestamp and version are overwritten.
\<close>

theorem applyDelta_stale_version_counterexample:
  "delta_version \<lparr>delta_id = 10, delta_title = Some ''stale'', delta_body = None,
                  delta_updatedAtUnixMs = 4, delta_version = 1\<rparr> \<le> pb_version ex_a
   \<and> find (\<lambda>candidate. pb_id candidate = 10) [ex_a] = Some ex_a
   \<and> find (\<lambda>candidate. pb_id candidate = 10)
        (applyDelta [ex_a] \<lparr>delta_id = 10, delta_title = Some ''stale'', delta_body = None,
                             delta_updatedAtUnixMs = 4, delta_version = 1\<rparr>)
       = Some \<lparr>pb_id = 10, pb_title = ''stale'', pb_body = ''x'', createdAtUnixMs = 1,
               updatedAtUnixMs = 4, pb_version = 1\<rparr>
   \<and> \<lparr>pb_id = 10, pb_title = ''stale'', pb_body = ''x'', createdAtUnixMs = 1,
               updatedAtUnixMs = 4, pb_version = 1\<rparr> \<noteq> ex_a"
  by (simp add: reconciler_defs)

text \<open>
  Claim C1, as the code has it. For a collection with pairwise distinct ids and a delta
  whose id is present, the entity held for that id after \<open>applyDelta\<close> is the merged
  one: title and body from the delta where present, \<open>updatedAtUnixMs\<close> and
  \<open>version\<close> from the delta, whatever the delta's version is relative to the cached
  version.
\<close>

theorem applyDelta_ignores_version_order:
  assumes d: "distinct (map pb_id notes)"
    and ex: "find (\<lambda>candidate. pb_id candidate = delta_id delta) notes = Some existing"
  shows "find (\<lambda>candidate. pb_id candidate = delta_id delta) (applyDelta notes delta)
         = Some (existing\<lparr>pb_title := (case delta_title delta of Some t \<Rightarrow> t | None \<Rightarrow> pb_title existing),
                          pb_body := (case delta_body delta of Some b \<Rightarrow> b | None \<Rightarrow> pb_body existing),
                          updatedAtUnixMs := delta_updatedAtUnixMs delta,
                          pb_version := delta_version delta\<rparr>)"
proof -
  let ?m = "existing\<lparr>pb_title := (case delta_title delta of Some t \<Rightarrow> t | None \<Rightarrow> pb_title existing),
                          pb_body := (case delta_body delta of Some b \<Rightarrow> b | None \<Rightarrow> pb_body existing),
                          updatedAtUnixMs := delta_updatedAtUnixMs delta,
                          pb_version := delta_version delta\<rparr>"
  from ex have id: "pb_id existing = delta_id delta"
    by (auto simp: find_Some_iff)
  have res: "applyDelta notes delta = upsertNote notes ?m"
    using ex by (simp add: applyDelta_def)
  have "distinct (map pb_id (upsertNote notes ?m))"
    using d by (rule distinct_ids_upsertNote)
  moreover have "?m \<in> set (upsertNote notes ?m)"
    by (simp add: set_upsertNote [OF d])
  ultimately have "find (\<lambda>candidate. pb_id candidate = pb_id ?m) (upsertNote notes ?m) = Some ?m"
    by (rule find_by_id)
  then show ?thesis using id res by simp
qed

text \<open>A delta with version 0 against a cached version 1.\<close>

theorem applyDelta_ignores_version_order_witness:
  "distinct (map pb_id [ex_b, ex_a])
   \<and> find (\<lambda>candidate. pb_id candidate = 10)
        (applyDelta [ex_b, ex_a] \<lparr>delta_id = 10, delta_title = None, delta_body = Some ''old'',
                                   delta_updatedAtUnixMs = 2, delta_version = 0\<rparr>)
       = Some \<lparr>pb_id = 10, pb_title = ''a'', pb_body = ''old'', createdAtUnixMs = 1,
               updatedAtUnixMs = 2, pb_version = 0\<rparr>"
  using applyDelta_ignores_version_order [of "[ex_b, ex_a]"
      "\<lparr>delta_id = 10, delta_title = None, delta_body = Some ''old'',
        delta_updatedAtUnixMs = 2, delta_version = 0\<rparr>" ex_a]
  by (simp add: reconciler_defs)

end
